theory Spec2Isabelle
  imports Main "HOL-Library.Word"
begin

unbundle bit_operations_syntax

section \<open>The automatic-memory registry of ecpglib (memory.c)\<close>

text \<open>
  The model follows \<^verbatim>\<open>src/interfaces/ecpg/ecpglib/memory.c\<close> function by function.

  \<^item> A pointer is a 64-bit word; the null pointer is \<open>0\<close>.
  \<^item> \<^verbatim>\<open>struct auto_mem\<close> is a record of two words. Its first member is the anonymous
    union of \<^verbatim>\<open>void *pointer\<close> and the one-bit field \<^verbatim>\<open>uintptr_t auto_clear_disabled:1\<close>:
    both live in the same word \<open>slot\<close>, and the bit-field is bit 0 of it (the layout of the
    little-endian ABIs; the spec calls it the spare low bit of the pointer).
  \<^item> The memory holding \<^verbatim>\<open>struct auto_mem\<close> objects is a partial map from addresses to
    records; an address outside its domain is not an allocated node, and reading through it
    is a fault.
  \<^item> The thread's list head (\<^verbatim>\<open>auto_allocs\<close>, or the thread-specific value of
    \<^verbatim>\<open>auto_mem_key\<close>) is a field of the state: one state is one thread's registry.
  \<^item> The calls that leave the file (\<^verbatim>\<open>ecpg_raise\<close>, \<^verbatim>\<open>ecpg_log\<close>, \<^verbatim>\<open>free\<close>) are
    recorded, in order, in a trace.
  \<^item> The platform allocator is not part of the file: what \<^verbatim>\<open>calloc\<close> or \<^verbatim>\<open>strdup\<close>
    returns is an argument of the function that calls it (\<open>0\<close> for a failed allocation).
  \<^item> Line numbers and sizes are only passed on, never computed with: they are \<open>int\<close>.
\<close>

type_synonym addr = "64 word"

record auto_mem =
  slot :: addr
  nxt :: addr

datatype event = Raise_out_of_memory int | Log string | Free addr

datatype fault = Null_deref | Dangling_deref addr

record state =
  heap :: "addr \<rightharpoonup> auto_mem"
  auto_allocs :: addr
  trace :: "event list"

definition init_state :: state where
  "init_state = \<lparr>heap = Map.empty, auto_allocs = 0, trace = []\<rparr>"

subsection \<open>The union: one word read as a pointer or as a one-bit flag\<close>

definition pointer :: "auto_mem \<Rightarrow> addr" where
  "pointer am = slot am"

definition auto_clear_disabled :: "auto_mem \<Rightarrow> bool" where
  "auto_clear_disabled am = bit (slot am) 0"

definition set_pointer :: "addr \<Rightarrow> auto_mem \<Rightarrow> auto_mem" where
  "set_pointer ptr am = am\<lparr>slot := ptr\<rparr>"

definition set_next :: "addr \<Rightarrow> auto_mem \<Rightarrow> auto_mem" where
  "set_next p am = am\<lparr>nxt := p\<rparr>"

text \<open>Assigning 1 or 0 to the bit-field changes bit 0 of the word and nothing else.\<close>

definition with_marker :: "addr \<Rightarrow> addr" where
  "with_marker w = w OR 1"

definition without_marker :: "addr \<Rightarrow> addr" where
  "without_marker w = w AND NOT 1"

definition set_auto_clear_disabled :: "bool \<Rightarrow> auto_mem \<Rightarrow> auto_mem" where
  "set_auto_clear_disabled b am =
     am\<lparr>slot := (if b then with_marker (slot am) else without_marker (slot am))\<rparr>"

subsection \<open>State access\<close>

definition get_auto_allocs :: "state \<Rightarrow> addr" where
  "get_auto_allocs s = auto_allocs s"

definition set_auto_allocs :: "addr \<Rightarrow> state \<Rightarrow> state" where
  "set_auto_allocs am s = s\<lparr>auto_allocs := am\<rparr>"

definition emit :: "event \<Rightarrow> state \<Rightarrow> state" where
  "emit e s = s\<lparr>trace := trace s @ [e]\<rparr>"

definition ecpg_log :: "string \<Rightarrow> state \<Rightarrow> state" where
  "ecpg_log msg s = emit (Log msg) s"

definition ecpg_raise_out_of_memory :: "int \<Rightarrow> state \<Rightarrow> state" where
  "ecpg_raise_out_of_memory lineno s = emit (Raise_out_of_memory lineno) s"

text \<open>The four messages the file logs, each ending in a newline.\<close>

definition msg_reenabled :: string where
  "msg_reenabled = ''ECPGfree_auto_mem re-enabled auto-clear on exec'' @ [CHR 0x0A]"

definition msg_disabling :: string where
  "msg_disabling = ''Disabling auto-free on exec'' @ [CHR 0x0A]"

definition msg_already_disabled :: string where
  "msg_already_disabled =
     ''warning: Logic error: auto-clear on exec already disabled for this thread'' @ [CHR 0x0A]"

definition msg_not_freeing :: string where
  "msg_not_freeing =
     ''Not freeing auto-allocated structures; awaiting ECPGfree_auto_mem()'' @ [CHR 0x0A]"

text \<open>Reading through a node pointer: the null pointer and a pointer to memory that is
  not an allocated node are faults.\<close>

definition deref :: "addr \<Rightarrow> state \<Rightarrow> fault + auto_mem" where
  "deref a s =
     (if a = 0 then Inl Null_deref
      else case heap s a of None \<Rightarrow> Inl (Dangling_deref a) | Some n \<Rightarrow> Inr n)"

text \<open>Writing through a node pointer that the caller has already read through.\<close>

definition modify :: "addr \<Rightarrow> (auto_mem \<Rightarrow> auto_mem) \<Rightarrow> state \<Rightarrow> state" where
  "modify a f s =
     (case heap s a of None \<Rightarrow> s | Some n \<Rightarrow> s\<lparr>heap := (heap s)(a \<mapsto> f n)\<rparr>)"

text \<open>The zero-filled block that \<^verbatim>\<open>calloc\<close> returned, seen as a \<^verbatim>\<open>struct auto_mem\<close>;
  a failed \<^verbatim>\<open>calloc\<close> gives no block.\<close>

definition zeroed_node :: "addr \<Rightarrow> state \<Rightarrow> state" where
  "zeroed_node a s =
     (if a = 0 then s else s\<lparr>heap := (heap s)(a \<mapsto> \<lparr>slot = 0, nxt = 0\<rparr>)\<rparr>)"

definition sizeof_auto_mem :: int where
  "sizeof_auto_mem = 16"

subsection \<open>The allocation wrappers\<close>

text \<open>\<^verbatim>\<open>free(ptr)\<close>: nothing happens on the null pointer; otherwise the block is gone.\<close>

definition ecpg_free :: "addr \<Rightarrow> state \<Rightarrow> state" where
  "ecpg_free ptr s =
     emit (Free ptr) (if ptr = 0 then s else s\<lparr>heap := (heap s)(ptr := None)\<rparr>)"

text \<open>\<open>new\<close> is what \<^verbatim>\<open>calloc(1L, size)\<close> returned (\<open>sz\<close> is the source's \<open>size\<close>).\<close>

definition ecpg_alloc :: "addr \<Rightarrow> int \<Rightarrow> int \<Rightarrow> state \<Rightarrow> addr \<times> state" where
  "ecpg_alloc new sz lineno s =
     (if new = 0 then (0, ecpg_raise_out_of_memory lineno s) else (new, s))"

text \<open>\<open>new\<close> is what \<^verbatim>\<open>realloc(ptr, size)\<close> returned.\<close>

definition ecpg_realloc :: "addr \<Rightarrow> addr \<Rightarrow> int \<Rightarrow> int \<Rightarrow> state \<Rightarrow> addr \<times> state" where
  "ecpg_realloc new ptr sz lineno s =
     (if new = 0 then (0, ecpg_raise_out_of_memory lineno s) else (new, s))"

text \<open>\<open>new\<close> is what \<^verbatim>\<open>strdup(string)\<close> returned; it is not called on the null string.\<close>

definition ecpg_strdup :: "addr \<Rightarrow> addr \<Rightarrow> int \<Rightarrow> state \<Rightarrow> addr \<times> state" where
  "ecpg_strdup new string lineno s =
     (if string = 0 then (0, s)
      else if new = 0 then (0, ecpg_raise_out_of_memory lineno s)
      else (new, s))"

subsection \<open>Registering\<close>

text \<open>\<open>new\<close> is what the \<^verbatim>\<open>calloc\<close> for the node returned. The source reads
  \<^verbatim>\<open>am->next\<close> back right after writing it: that is the list head it has just stored.\<close>

definition ecpg_add_mem :: "addr \<Rightarrow> addr \<Rightarrow> int \<Rightarrow> state \<Rightarrow> (fault \<times> state) + (bool \<times> state)" where
  "ecpg_add_mem new ptr lineno s =
     (case ecpg_alloc new sizeof_auto_mem lineno s of (am, s1) \<Rightarrow>
        if am = 0 then Inr (False, s1)
        else
          let s2 = modify am (set_pointer ptr) (zeroed_node am s1);
              am_next = get_auto_allocs s2;
              s3 = modify am (set_next am_next) s2
          in if am_next \<noteq> 0 then
               (case deref am_next s3 of
                  Inl f \<Rightarrow> Inl (f, s3)
                | Inr prev \<Rightarrow>
                    let disabled = auto_clear_disabled prev;
                        s4 = modify am_next (set_auto_clear_disabled False) s3;
                        s5 = (if disabled then modify am (set_auto_clear_disabled True) s4
                              else s4)
                    in Inr (True, set_auto_allocs am s5))
             else Inr (True, set_auto_allocs am s3))"

text \<open>\<open>new_ptr\<close> is what the \<^verbatim>\<open>calloc\<close> for the payload returned, \<open>new_am\<close> what the one
  for the node returned (it is only called when the first one succeeded).\<close>

definition ecpg_auto_alloc :: "addr \<Rightarrow> addr \<Rightarrow> int \<Rightarrow> int \<Rightarrow> state \<Rightarrow> (fault \<times> state) + (addr \<times> state)" where
  "ecpg_auto_alloc new_ptr new_am sz lineno s =
     (case ecpg_alloc new_ptr sz lineno s of (ptr, s1) \<Rightarrow>
        if ptr = 0 then Inr (0, s1)
        else
          (case ecpg_add_mem new_am ptr lineno s1 of
             Inl f \<Rightarrow> Inl f
           | Inr (ok, s2) \<Rightarrow>
               if \<not> ok then Inr (0, ecpg_free ptr s2) else Inr (ptr, s2)))"

subsection \<open>Releasing\<close>

text \<open>The \<^verbatim>\<open>do ... while (am)\<close> loop of \<^verbatim>\<open>ECPGfree_auto_mem\<close>. A loop that does not
  return has the value \<open>None\<close>.\<close>

partial_function (option) free_auto_mem_loop :: "addr \<Rightarrow> state \<Rightarrow> ((fault \<times> state) + state) option" where
  "free_auto_mem_loop am s =
     (case deref am s of
        Inl f \<Rightarrow> Some (Inl (f, s))
      | Inr act \<Rightarrow>
          let am' = nxt act;
              s1 = ecpg_free (pointer act) s;
              s2 = ecpg_free am s1
          in if am' \<noteq> 0 then free_auto_mem_loop am' s2 else Some (Inr s2))"

declare free_auto_mem_loop.simps [code]

definition ECPGfree_auto_mem :: "state \<Rightarrow> ((fault \<times> state) + state) option" where
  "ECPGfree_auto_mem s =
     (let am = get_auto_allocs s
      in if am \<noteq> 0 then
           (case deref am s of
              Inl f \<Rightarrow> Some (Inl (f, s))
            | Inr hd_node \<Rightarrow>
                let s1 = (if auto_clear_disabled hd_node
                          then modify am (set_auto_clear_disabled False)
                                 (ecpg_log msg_reenabled s)
                          else s)
                in (case free_auto_mem_loop am s1 of
                      None \<Rightarrow> None
                    | Some (Inl f) \<Rightarrow> Some (Inl f)
                    | Some (Inr s2) \<Rightarrow> Some (Inr (set_auto_allocs 0 s2))))
         else Some (Inr s))"

text \<open>\<open>new\<close> is what the \<^verbatim>\<open>calloc\<close> for the placeholder node returned; it is only called
  when the thread has no list. The last statement of the source writes through \<open>am\<close>
  on both paths.\<close>

definition ECPGdisable_auto_mem_clear_on_exec :: "addr \<Rightarrow> state \<Rightarrow> (fault \<times> state) + state" where
  "ECPGdisable_auto_mem_clear_on_exec new s =
     (let am0 = get_auto_allocs s;
          s1 = ecpg_log msg_disabling s
      in case (if am0 \<noteq> 0 then
                 (case deref am0 s1 of
                    Inl f \<Rightarrow> Inl (f, s1)
                  | Inr hd_node \<Rightarrow>
                      Inr (am0,
                           if auto_clear_disabled hd_node
                           then ecpg_log msg_already_disabled s1
                           else s1))
               else
                 (case ecpg_alloc new sizeof_auto_mem 0 s1 of (am, s2) \<Rightarrow>
                    Inr (am, set_auto_allocs am (zeroed_node am s2))))
         of Inl f \<Rightarrow> Inl f
          | Inr (am, s3) \<Rightarrow>
              (case deref am s3 of
                 Inl f \<Rightarrow> Inl (f, s3)
               | Inr n \<Rightarrow> Inr (modify am (set_auto_clear_disabled True) s3)))"

text \<open>The \<^verbatim>\<open>do ... while (am)\<close> loop of \<^verbatim>\<open>ecpg_clear_auto_mem\<close>.\<close>

partial_function (option) clear_auto_mem_loop :: "addr \<Rightarrow> state \<Rightarrow> ((fault \<times> state) + state) option" where
  "clear_auto_mem_loop am s =
     (case deref am s of
        Inl f \<Rightarrow> Some (Inl (f, s))
      | Inr act \<Rightarrow>
          let am' = nxt act;
              s1 = ecpg_free am s
          in if am' \<noteq> 0 then clear_auto_mem_loop am' s1 else Some (Inr s1))"

declare clear_auto_mem_loop.simps [code]

definition ecpg_clear_auto_mem :: "state \<Rightarrow> ((fault \<times> state) + state) option" where
  "ecpg_clear_auto_mem s =
     (let am = get_auto_allocs s
      in if am \<noteq> 0 then
           (case deref am s of
              Inl f \<Rightarrow> Some (Inl (f, s))
            | Inr hd_node \<Rightarrow>
                if auto_clear_disabled hd_node
                then Some (Inr (ecpg_log msg_not_freeing s))
                else
                  (case clear_auto_mem_loop am s of
                     None \<Rightarrow> None
                   | Some (Inl f) \<Rightarrow> Some (Inl f)
                   | Some (Inr s1) \<Rightarrow> Some (Inr (set_auto_allocs 0 s1))))
         else Some (Inr s))"

subsection \<open>The list a state holds\<close>

text \<open>\<open>list_at h p as\<close>: following \<open>nxt\<close> from \<open>p\<close> through allocated nodes visits exactly
  the addresses \<open>as\<close> and then reaches the null pointer.\<close>

fun list_at :: "(addr \<rightharpoonup> auto_mem) \<Rightarrow> addr \<Rightarrow> addr list \<Rightarrow> bool" where
  "list_at h p [] = (p = 0)"
| "list_at h p (a # as) =
     (p = a \<and> a \<noteq> 0 \<and> (case h a of None \<Rightarrow> False | Some n \<Rightarrow> list_at h (nxt n) as))"

text \<open>Whether the node at \<open>a\<close> carries the marker bit, and the pointer it owns: its word
  without the marker bit.\<close>

definition flagged :: "(addr \<rightharpoonup> auto_mem) \<Rightarrow> addr \<Rightarrow> bool" where
  "flagged h a = (case h a of None \<Rightarrow> False | Some n \<Rightarrow> auto_clear_disabled n)"

definition owned :: "(addr \<rightharpoonup> auto_mem) \<Rightarrow> addr \<Rightarrow> addr" where
  "owned h a = (case h a of None \<Rightarrow> 0 | Some n \<Rightarrow> without_marker (slot n))"

text \<open>The invariant of the data model: the thread's list is \<open>as\<close>, and no node after the
  head carries the marker bit.\<close>

definition registry :: "state \<Rightarrow> addr list \<Rightarrow> bool" where
  "registry s as =
     (list_at (heap s) (auto_allocs s) as \<and> (\<forall>a \<in> set (tl as). \<not> flagged (heap s) a))"

text \<open>No owned pointer is the address of a node of the list: payload blocks and node
  blocks are different blocks of the allocator.\<close>

definition separate :: "state \<Rightarrow> addr list \<Rightarrow> bool" where
  "separate s as = (\<forall>a \<in> set as. owned (heap s) a \<notin> set as)"

subsection \<open>Sequences of calls\<close>

text \<open>A registering call, with what the allocator returned to it:
  \<open>Register_new new_ptr new_am size lineno\<close> is \<^verbatim>\<open>ecpg_auto_alloc(size, lineno)\<close>,
  \<open>Register_existing new ptr lineno\<close> is \<^verbatim>\<open>ecpg_add_mem(ptr, lineno)\<close>.\<close>

datatype call = Register_new addr addr int int | Register_existing addr addr int

fun node_of :: "call \<Rightarrow> addr" where
  "node_of (Register_new new_ptr new_am sz lineno) = new_am"
| "node_of (Register_existing new ptr lineno) = new"

fun ptr_of :: "call \<Rightarrow> addr" where
  "ptr_of (Register_new new_ptr new_am sz lineno) = new_ptr"
| "ptr_of (Register_existing new ptr lineno) = ptr"

text \<open>A call that succeeded gives the pointer it returned (\<^verbatim>\<open>ecpg_auto_alloc\<close>) or was
  handed (\<^verbatim>\<open>ecpg_add_mem\<close>) and the next state; a call that failed or faulted gives
  \<open>None\<close>.\<close>

fun register :: "call \<Rightarrow> state \<Rightarrow> (addr \<times> state) option" where
  "register (Register_new new_ptr new_am sz lineno) s =
     (case ecpg_auto_alloc new_ptr new_am sz lineno s of
        Inl f \<Rightarrow> None
      | Inr (p, s') \<Rightarrow> if p \<noteq> 0 then Some (p, s') else None)"
| "register (Register_existing new ptr lineno) s =
     (case ecpg_add_mem new ptr lineno s of
        Inl f \<Rightarrow> None
      | Inr (ok, s') \<Rightarrow> if ok then Some (ptr, s') else None)"

fun register_all :: "call list \<Rightarrow> state \<Rightarrow> (addr list \<times> state) option" where
  "register_all [] s = Some ([], s)"
| "register_all (c # cs) s =
     (case register c s of
        None \<Rightarrow> None
      | Some (p, s') \<Rightarrow>
          (case register_all cs s' of
             None \<Rightarrow> None
           | Some (ps, s'') \<Rightarrow> Some (p # ps, s'')))"

text \<open>What the platform allocator guarantees about the blocks of a sequence of calls made
  on the list \<open>as\<close>: the node blocks it returns are distinct blocks that are not allocated
  yet and not owned by the list; the payloads are aligned (bit 0 is clear, as for every
  block that \<^verbatim>\<open>free\<close> accepts) and are not node blocks.\<close>

definition allocator_contract :: "call list \<Rightarrow> state \<Rightarrow> addr list \<Rightarrow> bool" where
  "allocator_contract cs s as =
     (distinct (map node_of cs) \<and>
      (\<forall>c \<in> set cs. heap s (node_of c) = None \<and> node_of c \<notin> owned (heap s) ` set as) \<and>
      (\<forall>c \<in> set cs. \<not> bit (ptr_of c) 0 \<and> ptr_of c \<notin> node_of ` set cs \<and> ptr_of c \<notin> set as))"

text \<open>The states a thread's registry can be in: any sequence of the five operations from
  the empty registry, where \<^verbatim>\<open>calloc\<close> fails or returns a block that is not allocated.\<close>

inductive reachable :: "state \<Rightarrow> bool" where
  start: "reachable init_state"
| add_mem:
    "reachable s \<Longrightarrow> new = 0 \<or> heap s new = None \<Longrightarrow>
     ecpg_add_mem new ptr lineno s = Inr (ok, s') \<Longrightarrow> reachable s'"
| auto_alloc:
    "reachable s \<Longrightarrow> new_ptr = 0 \<or> heap s new_ptr = None \<Longrightarrow>
     new_am = 0 \<or> heap s new_am = None \<Longrightarrow>
     ecpg_auto_alloc new_ptr new_am sz lineno s = Inr (p, s') \<Longrightarrow> reachable s'"
| free_auto_mem:
    "reachable s \<Longrightarrow> ECPGfree_auto_mem s = Some (Inr s') \<Longrightarrow> reachable s'"
| disable:
    "reachable s \<Longrightarrow> new = 0 \<or> heap s new = None \<Longrightarrow>
     ECPGdisable_auto_mem_clear_on_exec new s = Inr s' \<Longrightarrow> reachable s'"
| clear_auto_mem:
    "reachable s \<Longrightarrow> ecpg_clear_auto_mem s = Some (Inr s') \<Longrightarrow> reachable s'"

definition at_most_head_flagged :: "state \<Rightarrow> bool" where
  "at_most_head_flagged s = (\<exists>as. registry s as)"

text \<open>What a caller sees of \<^verbatim>\<open>ecpg_add_mem\<close>: the value returned, or the fault, and the
  events.\<close>

definition outcome :: "(fault \<times> state) + (bool \<times> state) \<Rightarrow> (fault + bool) \<times> event list" where
  "outcome r = (case r of Inl (f, s) \<Rightarrow> (Inl f, trace s) | Inr (ok, s) \<Rightarrow> (Inr ok, trace s))"

section \<open>Basic facts\<close>

lemmas access_defs = get_auto_allocs_def set_auto_allocs_def emit_def ecpg_log_def
  ecpg_raise_out_of_memory_def deref_def modify_def zeroed_node_def
  pointer_def auto_clear_disabled_def set_pointer_def set_next_def set_auto_clear_disabled_def

lemma bit0_with_marker [simp]: "bit (with_marker w) 0"
  by (simp add: with_marker_def bit_or_iff)
lemma bit0_without_marker [simp]: "\<not> bit (without_marker w) 0"
  by (simp add: without_marker_def bit_and_iff bit_not_iff)
lemma with_marker_idem [simp]: "with_marker (with_marker w) = with_marker w"
  by (simp add: with_marker_def or.assoc)
lemma without_with_marker [simp]: "without_marker (with_marker w) = without_marker w"
  unfolding with_marker_def without_marker_def
  by (rule bit_eqI) (auto simp: bit_and_iff bit_or_iff bit_not_iff bit_1_iff)
lemma without_marker_idem [simp]: "without_marker (without_marker w) = without_marker w"
  by (simp add: without_marker_def and.assoc)
lemma without_marker_aligned: "\<not> bit w 0 \<Longrightarrow> without_marker w = w"
  unfolding without_marker_def
  by (rule bit_eqI) (auto simp: bit_and_iff bit_not_iff bit_1_iff intro: gr0I)
lemma without_marker_0 [simp]: "without_marker 0 = 0"
  by (simp add: without_marker_def)

lemma list_at_cong:
  "(\<And>a. a \<in> set as \<Longrightarrow> map_option nxt (h' a) = map_option nxt (h a)) \<Longrightarrow>
   list_at h' p as = list_at h p as"
proof (induction as arbitrary: p)
  case Nil
  show ?case by simp
next
  case (Cons a as)
  have "map_option nxt (h' a) = map_option nxt (h a)"
    using Cons.prems by simp
  moreover have "list_at h' q as = list_at h q as" for q
    using Cons.IH Cons.prems by simp
  ultimately show ?case
    by (cases "h a"; cases "h' a") auto
qed

lemma list_at_allocated: "list_at h p as \<Longrightarrow> a \<in> set as \<Longrightarrow> a \<noteq> 0 \<and> h a \<noteq> None"
  by (induction as arbitrary: p) (auto split: option.splits)

lemma list_at_unique: "list_at h p as \<Longrightarrow> list_at h p bs \<Longrightarrow> as = bs"
proof (induction as arbitrary: p bs)
  case Nil
  then show ?case by (cases bs) auto
next
  case (Cons a as)
  then show ?case by (cases bs) (auto split: option.splits)
qed

lemma list_at_suffix: "list_at h p (xs @ a # ys) \<Longrightarrow> list_at h a (a # ys)"
proof (induction xs arbitrary: p)
  case Nil
  then show ?case by simp
next
  case (Cons x xs)
  from Cons.prems obtain n where "h x = Some n" "list_at h (nxt n) (xs @ a # ys)"
    by (auto split: option.split_asm)
  then show ?case using Cons.IH by blast
qed

lemma list_at_head_fresh:
  assumes "list_at h p (a # as)" shows "a \<notin> set as"
proof
  assume "a \<in> set as"
  then obtain xs ys where as: "as = xs @ a # ys"
    by (auto simp: in_set_conv_decomp)
  with assms have "list_at h a (a # ys)"
    using list_at_suffix [of h p "a # xs" a ys] by simp
  moreover from assms have "list_at h a (a # as)" by simp
  ultimately have "a # as = a # ys" by (rule list_at_unique [rotated])
  with as show False by simp
qed

lemma list_at_distinct: "list_at h p as \<Longrightarrow> distinct as"
proof (induction as arbitrary: p)
  case Nil
  show ?case by simp
next
  case (Cons a as)
  from Cons.prems have "a \<notin> set as" by (rule list_at_head_fresh)
  moreover from Cons.prems obtain n where "h a = Some n" "list_at h (nxt n) as"
    by (auto split: option.splits)
  ultimately show ?case using Cons.IH by simp
qed

lemma owned_upd_other [simp]: "a \<noteq> b \<Longrightarrow> owned (h(b := v)) a = owned h a"
  by (simp add: owned_def)

lemma flagged_upd_other [simp]: "a \<noteq> b \<Longrightarrow> flagged (h(b := v)) a = flagged h a"
  by (simp add: flagged_def)

lemma add_mem_ok:
  assumes reg: "registry s as" and new: "new \<noteq> 0" "heap s new = None"
  shows "\<exists>s'. ecpg_add_mem new ptr lineno s = Inr (True, s') \<and> registry s' (new # as) \<and>
           trace s' = trace s \<and> auto_allocs s' = new \<and>
           owned (heap s') new = without_marker ptr \<and>
           (\<forall>a \<in> set as. owned (heap s') a = owned (heap s) a \<and> \<not> flagged (heap s') a) \<and>
           flagged (heap s') new = (bit ptr 0 \<or> auto_allocs s \<noteq> 0 \<and> flagged (heap s) (auto_allocs s)) \<and>
           (\<forall>x. x \<noteq> new \<longrightarrow> (heap s' x = None) = (heap s x = None))"
proof (cases as)
  case Nil
  with reg have hd: "auto_allocs s = 0" by (simp add: registry_def)
  let ?s' = "s\<lparr>heap := (heap s)(new \<mapsto> \<lparr>slot = ptr, nxt = 0\<rparr>), auto_allocs := new\<rparr>"
  have "ecpg_add_mem new ptr lineno s = Inr (True, ?s')"
    using hd new by (simp add: ecpg_add_mem_def ecpg_alloc_def access_defs Let_def)
  moreover have "registry ?s' (new # as)"
    using Nil new by (simp add: registry_def)
  ultimately show ?thesis
    using Nil hd by (simp add: owned_def flagged_def auto_clear_disabled_def)
next
  case (Cons a as')
  with reg obtain prev where a: "auto_allocs s = a" "a \<noteq> 0" "heap s a = Some prev"
    and rest: "list_at (heap s) (nxt prev) as'" and noflag: "\<forall>x \<in> set as'. \<not> flagged (heap s) x"
    by (auto simp: registry_def split: option.splits)
  from a new have an: "a \<noteq> new" by auto
  from reg Cons have "list_at (heap s) (auto_allocs s) (a # as')" by (simp add: registry_def)
  then have "distinct (a # as')" by (rule list_at_distinct)
  then have a_fresh: "a \<notin> set as'" by simp
  have new_fresh: "new \<notin> set as'"
    using rest new list_at_allocated [of "heap s" "nxt prev" as' new] by auto
  let ?h' = "(heap s)(new \<mapsto> \<lparr>slot = (if bit (slot prev) 0 then with_marker ptr else ptr), nxt = a\<rparr>,
                      a \<mapsto> prev\<lparr>slot := without_marker (slot prev)\<rparr>)"
  let ?s' = "s\<lparr>heap := ?h', auto_allocs := new\<rparr>"
  have "ecpg_add_mem new ptr lineno s = Inr (True, ?s')"
    using a an new
    by (auto simp add: ecpg_add_mem_def ecpg_alloc_def access_defs Let_def fun_upd_twist)
  moreover have "list_at ?h' (nxt prev) as'"
    using rest a_fresh new_fresh by (subst list_at_cong [where h = "heap s"]) auto
  then have "registry ?s' (new # as)"
    using Cons a an new noflag a_fresh new_fresh by (auto simp: registry_def flagged_def auto_clear_disabled_def)
  moreover have "\<forall>x \<in> set as. owned ?h' x = owned (heap s) x \<and> \<not> flagged ?h' x"
    using Cons a an noflag a_fresh new_fresh by (auto simp: owned_def flagged_def auto_clear_disabled_def)
  ultimately show ?thesis
    using a an by (auto simp: owned_def flagged_def auto_clear_disabled_def)
qed

lemma heap_ecpg_free [simp]:
  "heap (ecpg_free p s) = (if p = 0 then heap s else (heap s)(p := None))"
  by (simp add: ecpg_free_def emit_def)

lemma trace_ecpg_free [simp]: "trace (ecpg_free p s) = trace s @ [Free p]"
  by (simp add: ecpg_free_def emit_def)

lemma auto_allocs_ecpg_free [simp]: "auto_allocs (ecpg_free p s) = auto_allocs s"
  by (simp add: ecpg_free_def emit_def)

lemma deref_allocated: "a \<noteq> 0 \<Longrightarrow> heap s a = Some n \<Longrightarrow> deref a s = Inr n"
  by (simp add: deref_def)

lemma clear_loop_ok:
  "list_at (heap s) am (am # as) \<Longrightarrow>
   \<exists>s'. clear_auto_mem_loop am s = Some (Inr s') \<and>
        trace s' = trace s @ map Free (am # as) \<and>
        auto_allocs s' = auto_allocs s \<and>
        heap s' = heap s |` (- set (am # as))"
proof (induction as arbitrary: am s)
  case Nil
  then obtain act where act: "am \<noteq> 0" "heap s am = Some act" "nxt act = 0"
    by (auto split: option.splits)
  then have "clear_auto_mem_loop am s = Some (Inr (ecpg_free am s))"
    by (subst clear_auto_mem_loop.simps) (simp add: deref_allocated)
  then show ?case using act by (auto simp: restrict_map_def)
next
  case (Cons b bs)
  then obtain act where act: "am \<noteq> 0" "heap s am = Some act" "nxt act = b" "b \<noteq> 0"
    and rest: "list_at (heap s) b (b # bs)"
    by (auto split: option.splits)
  from Cons.prems have "distinct (am # b # bs)" by (rule list_at_distinct)
  then have fresh: "am \<notin> set (b # bs)" by simp
  let ?s1 = "ecpg_free am s"
  have "list_at (heap ?s1) b (b # bs) = list_at (heap s) b (b # bs)"
    using fresh by (intro list_at_cong) auto
  with rest have "list_at (heap ?s1) b (b # bs)" by simp
  from Cons.IH [OF this] obtain s' where s':
    "clear_auto_mem_loop b ?s1 = Some (Inr s')"
    "trace s' = trace ?s1 @ map Free (b # bs)"
    "auto_allocs s' = auto_allocs ?s1"
    "heap s' = heap ?s1 |` (- set (b # bs))"
    by blast
  have "clear_auto_mem_loop am s = clear_auto_mem_loop b ?s1"
    using act by (subst clear_auto_mem_loop.simps) (simp add: deref_allocated)
  with s' act show ?case by (auto simp: restrict_map_def)
qed

lemma free_loop_ok:
  "list_at (heap s) am (am # as) \<Longrightarrow>
   \<forall>a \<in> set (am # as). \<not> flagged (heap s) a \<and> owned (heap s) a \<notin> set (am # as) \<Longrightarrow>
   \<exists>s'. free_auto_mem_loop am s = Some (Inr s') \<and>
        trace s' = trace s @ concat (map (\<lambda>a. [Free (owned (heap s) a), Free a]) (am # as)) \<and>
        auto_allocs s' = auto_allocs s \<and>
        heap s' = heap s |` (- (set (am # as) \<union> (owned (heap s) ` set (am # as) - {0})))"
proof (induction as arbitrary: am s)
  case Nil
  then obtain act where act: "am \<noteq> 0" "heap s am = Some act" "nxt act = 0"
    by (auto split: option.splits)
  with Nil.prems(2) have own: "owned (heap s) am = slot act"
    by (simp add: owned_def flagged_def auto_clear_disabled_def without_marker_aligned)
  have "free_auto_mem_loop am s = Some (Inr (ecpg_free am (ecpg_free (slot act) s)))"
    using act by (subst free_auto_mem_loop.simps) (simp add: deref_allocated pointer_def)
  then show ?case using act own by (auto simp: restrict_map_def)
next
  case (Cons b bs)
  then obtain act where act: "am \<noteq> 0" "heap s am = Some act" "nxt act = b" "b \<noteq> 0"
    and rest: "list_at (heap s) b (b # bs)"
    by (auto split: option.splits)
  from Cons.prems(2) act have own: "owned (heap s) am = slot act"
    by (simp add: owned_def flagged_def auto_clear_disabled_def without_marker_aligned)
  from Cons.prems(1) have "distinct (am # b # bs)" by (rule list_at_distinct)
  then have fresh: "am \<notin> set (b # bs)" by simp
  from Cons.prems(2) own have pfresh: "slot act \<notin> set (b # bs)" by auto
  let ?s2 = "ecpg_free am (ecpg_free (slot act) s)"
  have same: "heap ?s2 a = heap s a" if "a \<in> set (b # bs)" for a
    using that fresh pfresh by auto
  then have "list_at (heap ?s2) b (b # bs) = list_at (heap s) b (b # bs)"
    by (intro list_at_cong) simp
  with rest have l2: "list_at (heap ?s2) b (b # bs)" by simp
  have own2: "owned (heap ?s2) a = owned (heap s) a" and fl2: "flagged (heap ?s2) a = flagged (heap s) a"
    if "a \<in> set (b # bs)" for a
    using same [OF that] by (simp_all add: owned_def flagged_def)
  have "\<forall>a \<in> set (b # bs). \<not> flagged (heap ?s2) a \<and> owned (heap ?s2) a \<notin> set (b # bs)"
    using Cons.prems(2) own2 fl2 by auto
  from Cons.IH [OF l2 this] obtain s' where s':
    "free_auto_mem_loop b ?s2 = Some (Inr s')"
    "trace s' = trace ?s2 @ concat (map (\<lambda>a. [Free (owned (heap ?s2) a), Free a]) (b # bs))"
    "auto_allocs s' = auto_allocs ?s2"
    "heap s' = heap ?s2 |` (- (set (b # bs) \<union> (owned (heap ?s2) ` set (b # bs) - {0})))"
    by blast
  have tr: "map (\<lambda>a. [Free (owned (heap ?s2) a), Free a]) (b # bs) =
            map (\<lambda>a. [Free (owned (heap s) a), Free a]) (b # bs)"
    using own2 by (intro map_cong) auto
  have im: "owned (heap ?s2) ` set (b # bs) = owned (heap s) ` set (b # bs)"
    using own2 by (intro image_cong) auto
  have "free_auto_mem_loop am s = free_auto_mem_loop b ?s2"
    using act by (subst free_auto_mem_loop.simps) (simp add: deref_allocated pointer_def)
  moreover have "heap s' = heap s |` (- (set (am # b # bs) \<union> (owned (heap s) ` set (am # b # bs) - {0})))"
    unfolding s'(4) im using own act(1) by (auto simp: restrict_map_def)
  ultimately show ?case using s'(1,2,3) own unfolding tr by simp
qed

subsection \<open>What each operation does to a well-formed registry\<close>

lemma registry_trace [simp]: "registry (s\<lparr>trace := t\<rparr>) as = registry s as"
  by (simp add: registry_def)

lemma separate_trace [simp]: "separate (s\<lparr>trace := t\<rparr>) as = separate s as"
  by (simp add: separate_def)

lemma registry_head:
  "registry s (a # as) \<Longrightarrow> auto_allocs s = a \<and> a \<noteq> 0 \<and> (\<exists>n. heap s a = Some n)"
  by (auto simp: registry_def split: option.splits)

lemma registry_Nil: "registry s [] = (auto_allocs s = 0)"
  by (simp add: registry_def)

lemma free_auto_mem_ok:
  assumes reg: "registry s as" and sep: "separate s as"
  shows "\<exists>s'. ECPGfree_auto_mem s = Some (Inr s') \<and> auto_allocs s' = 0 \<and>
           trace s' = trace s @
             (if auto_allocs s \<noteq> 0 \<and> flagged (heap s) (auto_allocs s)
              then [Log msg_reenabled] else []) @
             concat (map (\<lambda>a. [Free (owned (heap s) a), Free a]) as) \<and>
           heap s' = heap s |` (- (set as \<union> (owned (heap s) ` set as - {0})))"
proof (cases as)
  case Nil
  with reg have "auto_allocs s = 0" by (simp add: registry_Nil)
  then show ?thesis using Nil
    by (simp add: ECPGfree_auto_mem_def get_auto_allocs_def restrict_map_def)
next
  case (Cons a as')
  with reg obtain n where a: "auto_allocs s = a" "a \<noteq> 0" "heap s a = Some n"
    using registry_head by blast
  define s1 where "s1 = (if auto_clear_disabled n
                          then modify a (set_auto_clear_disabled False)
                                 (ecpg_log msg_reenabled s)
                          else s)"
  have h1: "heap s1 = (heap s)(a \<mapsto> n\<lparr>slot := without_marker (slot n)\<rparr>)"
    using a by (auto simp: s1_def access_defs without_marker_aligned fun_upd_idem)
  have t1: "trace s1 = trace s @ (if flagged (heap s) a
              then [Log msg_reenabled] else [])"
    and aa1: "auto_allocs s1 = auto_allocs s"
    using a by (auto simp: s1_def access_defs flagged_def)
  have l: "list_at (heap s) a (a # as')"
    using reg Cons a by (simp add: registry_def)
  have "list_at (heap s1) a (a # as') = list_at (heap s) a (a # as')"
    unfolding h1 using a by (intro list_at_cong) auto
  with l have l1: "list_at (heap s1) a (a # as')" by simp
  have own1: "owned (heap s1) x = owned (heap s) x" for x
    unfolding h1 using a by (simp add: owned_def)
  have fl1: "\<not> flagged (heap s1) x" if "x \<in> set (a # as')" for x
    using that reg Cons a unfolding h1
    by (auto simp: registry_def flagged_def auto_clear_disabled_def)
  have "\<forall>x \<in> set (a # as'). \<not> flagged (heap s1) x \<and> owned (heap s1) x \<notin> set (a # as')"
    using fl1 own1 sep Cons by (auto simp: separate_def)
  from free_loop_ok [OF l1 this] obtain s2 where s2:
    "free_auto_mem_loop a s1 = Some (Inr s2)"
    "trace s2 = trace s1 @ concat (map (\<lambda>x. [Free (owned (heap s1) x), Free x]) (a # as'))"
    "heap s2 = heap s1 |` (- (set (a # as') \<union> (owned (heap s1) ` set (a # as') - {0})))"
    by blast
  have "ECPGfree_auto_mem s = Some (Inr (set_auto_allocs 0 s2))"
    using a s2(1) by (simp add: ECPGfree_auto_mem_def get_auto_allocs_def deref_allocated s1_def)
  moreover have "owned (heap s1) ` set (a # as') = owned (heap s) ` set (a # as')"
    by (simp add: own1)
  then have "heap s2 = heap s |` (- (set as \<union> (owned (heap s) ` set as - {0})))"
    unfolding s2(3) Cons by (auto simp: restrict_map_def h1)
  ultimately show ?thesis
    using s2(2) t1 a Cons by (simp add: own1 set_auto_allocs_def)
qed

lemma clear_auto_mem_ok:
  assumes reg: "registry s as" and unflagged: "auto_allocs s = 0 \<or> \<not> flagged (heap s) (auto_allocs s)"
  shows "\<exists>s'. ecpg_clear_auto_mem s = Some (Inr s') \<and> auto_allocs s' = 0 \<and>
           trace s' = trace s @ map Free as \<and> heap s' = heap s |` (- set as)"
proof (cases as)
  case Nil
  with reg have "auto_allocs s = 0" by (simp add: registry_Nil)
  then show ?thesis using Nil
    by (simp add: ecpg_clear_auto_mem_def get_auto_allocs_def restrict_map_def)
next
  case (Cons a as')
  with reg obtain n where a: "auto_allocs s = a" "a \<noteq> 0" "heap s a = Some n"
    using registry_head by blast
  have l: "list_at (heap s) a (a # as')"
    using reg Cons a by (simp add: registry_def)
  from clear_loop_ok [OF l] obtain s1 where s1:
    "clear_auto_mem_loop a s = Some (Inr s1)"
    "trace s1 = trace s @ map Free (a # as')"
    "heap s1 = heap s |` (- set (a # as'))"
    by blast
  have "\<not> auto_clear_disabled n"
    using unflagged a by (simp add: flagged_def)
  then have "ecpg_clear_auto_mem s = Some (Inr (set_auto_allocs 0 s1))"
    using a s1(1) by (simp add: ecpg_clear_auto_mem_def get_auto_allocs_def deref_allocated)
  then show ?thesis using s1(2,3) Cons by (simp add: set_auto_allocs_def)
qed

lemma clear_auto_mem_suppressed:
  assumes "auto_allocs s \<noteq> 0" "flagged (heap s) (auto_allocs s)"
  shows "ecpg_clear_auto_mem s =
           Some (Inr (s\<lparr>trace := trace s @
             [Log msg_not_freeing]\<rparr>))"
  using assms
  by (auto simp: ecpg_clear_auto_mem_def access_defs flagged_def split: option.splits)

lemma disable_ok:
  assumes reg: "registry s as" and new: "as = [] \<longrightarrow> new \<noteq> 0"
  shows "\<exists>s'. ECPGdisable_auto_mem_clear_on_exec new s = Inr s' \<and>
           registry s' (if as = [] then [new] else as) \<and>
           auto_allocs s' \<noteq> 0 \<and> flagged (heap s') (auto_allocs s') \<and>
           trace s' = trace s @ Log msg_disabling #
             (if as \<noteq> [] \<and> flagged (heap s) (auto_allocs s)
              then [Log msg_already_disabled]
              else []) \<and>
           (\<forall>a. owned (heap s') a = (if as = [] \<and> a = new then 0 else owned (heap s) a)) \<and>
           (\<forall>a. (as = [] \<longrightarrow> a \<noteq> new) \<longrightarrow> (heap s' a = None) = (heap s a = None))"
proof (cases as)
  case Nil
  with reg have hd: "auto_allocs s = 0" by (simp add: registry_Nil)
  let ?s' = "s\<lparr>heap := (heap s)(new \<mapsto> \<lparr>slot = with_marker 0, nxt = 0\<rparr>), auto_allocs := new,
               trace := trace s @ [Log msg_disabling]\<rparr>"
  have "ECPGdisable_auto_mem_clear_on_exec new s = Inr ?s'"
    using hd new Nil
    by (simp add: ECPGdisable_auto_mem_clear_on_exec_def ecpg_alloc_def access_defs)
  then show ?thesis using Nil new
    by (auto simp: registry_def flagged_def owned_def auto_clear_disabled_def)
next
  case (Cons a as')
  with reg obtain n where a: "auto_allocs s = a" "a \<noteq> 0" "heap s a = Some n"
    using registry_head by blast
  let ?h' = "(heap s)(a \<mapsto> n\<lparr>slot := with_marker (slot n)\<rparr>)"
  let ?s' = "s\<lparr>heap := ?h',
               trace := trace s @ Log msg_disabling #
                 (if auto_clear_disabled n
                  then [Log msg_already_disabled]
                  else [])\<rparr>"
  have "ECPGdisable_auto_mem_clear_on_exec new s = Inr ?s'"
    using a by (simp add: ECPGdisable_auto_mem_clear_on_exec_def access_defs)
  moreover have "list_at ?h' a (a # as') = list_at (heap s) a (a # as')"
    using a by (intro list_at_cong) auto
  then have "registry ?s' (a # as')"
    using reg Cons a list_at_distinct [of "heap s" a "a # as'"]
    by (auto simp: registry_def flagged_def)
  ultimately show ?thesis using Cons a
    by (auto simp: flagged_def owned_def auto_clear_disabled_def)
qed

subsection \<open>Sequences of registering calls\<close>

lemma add_mem_step:
  assumes reg: "registry s as" and sep: "separate s as"
    and new: "new \<noteq> 0" "heap s new = None" "new \<notin> owned (heap s) ` set as"
    and ptr: "\<not> bit ptr 0" "ptr \<notin> set (new # as)"
  shows "\<exists>s'. ecpg_add_mem new ptr lineno s = Inr (True, s') \<and>
           registry s' (new # as) \<and> separate s' (new # as) \<and> trace s' = trace s \<and>
           owned (heap s') new = ptr \<and>
           (\<forall>a \<in> set as. owned (heap s') a = owned (heap s) a) \<and>
           (auto_allocs s' \<noteq> 0 \<and> flagged (heap s') (auto_allocs s')) =
             (auto_allocs s \<noteq> 0 \<and> flagged (heap s) (auto_allocs s)) \<and>
           (\<forall>x. x \<noteq> new \<longrightarrow> (heap s' x = None) = (heap s x = None))"
proof -
  from add_mem_ok [OF reg new(1,2), of ptr lineno] obtain s' where s':
    "ecpg_add_mem new ptr lineno s = Inr (True, s')" "registry s' (new # as)"
    "trace s' = trace s" "auto_allocs s' = new"
    "owned (heap s') new = without_marker ptr"
    "\<forall>a \<in> set as. owned (heap s') a = owned (heap s) a \<and> \<not> flagged (heap s') a"
    "flagged (heap s') new = (bit ptr 0 \<or> auto_allocs s \<noteq> 0 \<and> flagged (heap s) (auto_allocs s))"
    "\<forall>x. x \<noteq> new \<longrightarrow> (heap s' x = None) = (heap s x = None)"
    by blast
  have own: "owned (heap s') new = ptr"
    using s'(5) ptr(1) by (simp add: without_marker_aligned)
  have "separate s' (new # as)"
    using sep new(3) ptr(2) own s'(6) by (auto simp: separate_def)
  with s' own ptr(1) new(1) show ?thesis by auto
qed

lemma auto_alloc_is_add_mem:
  "new_ptr \<noteq> 0 \<Longrightarrow> ecpg_add_mem new_am new_ptr lineno s = Inr (True, s') \<Longrightarrow>
   ecpg_auto_alloc new_ptr new_am sz lineno s = Inr (new_ptr, s')"
  by (simp add: ecpg_auto_alloc_def ecpg_alloc_def)

lemma add_mem_True_nonnull: "ecpg_add_mem new ptr lineno s = Inr (True, s') \<Longrightarrow> new \<noteq> 0"
  by (auto simp: ecpg_add_mem_def ecpg_alloc_def)

lemma auto_alloc_success:
  "ecpg_auto_alloc new_ptr new_am sz lineno s = Inr (p, s') \<Longrightarrow> p \<noteq> 0 \<Longrightarrow>
   p = new_ptr \<and> ecpg_add_mem new_am new_ptr lineno s = Inr (True, s')"
  by (auto simp: ecpg_auto_alloc_def ecpg_alloc_def split: if_splits sum.splits prod.splits)

lemma register_success:
  "register c s = Some (p, s') \<Longrightarrow>
   p = ptr_of c \<and> node_of c \<noteq> 0 \<and> (\<exists>lineno. ecpg_add_mem (node_of c) (ptr_of c) lineno s = Inr (True, s'))"
proof (cases c)
  case (Register_new new_ptr new_am sz lineno)
  assume "register c s = Some (p, s')"
  with Register_new have "p = new_ptr \<and> ecpg_add_mem new_am new_ptr lineno s = Inr (True, s')"
    by (auto split: sum.splits if_splits dest: auto_alloc_success)
  with Register_new show ?thesis by (auto dest: add_mem_True_nonnull)
next
  case (Register_existing new ptr lineno)
  assume "register c s = Some (p, s')"
  with Register_existing have "p = ptr \<and> ecpg_add_mem new ptr lineno s = Inr (True, s')"
    by (auto split: sum.splits if_splits)
  with Register_existing show ?thesis by (auto dest: add_mem_True_nonnull)
qed

lemma register_all_ok:
  "registry s as \<Longrightarrow> separate s as \<Longrightarrow> allocator_contract cs s as \<Longrightarrow>
   register_all cs s = Some (ps, s') \<Longrightarrow>
   ps = map ptr_of cs \<and> registry s' (rev (map node_of cs) @ as) \<and>
   separate s' (rev (map node_of cs) @ as) \<and> trace s' = trace s \<and>
   (\<forall>c \<in> set cs. owned (heap s') (node_of c) = ptr_of c) \<and>
   (\<forall>a \<in> set as. owned (heap s') a = owned (heap s) a) \<and>
   (auto_allocs s' \<noteq> 0 \<and> flagged (heap s') (auto_allocs s')) =
     (auto_allocs s \<noteq> 0 \<and> flagged (heap s) (auto_allocs s))"
proof (induction cs arbitrary: s as ps)
  case Nil
  then show ?case by simp
next
  case (Cons c cs)
  from Cons.prems(4) obtain p s1 ps' where
    c: "register c s = Some (p, s1)" and cs: "register_all cs s1 = Some (ps', s')"
    and ps: "ps = p # ps'"
    by (auto split: option.splits prod.splits)
  from register_success [OF c] obtain lineno where
    p: "p = ptr_of c" and nz: "node_of c \<noteq> 0"
    and am: "ecpg_add_mem (node_of c) (ptr_of c) lineno s = Inr (True, s1)"
    by blast
  from Cons.prems(3) have contract:
    "distinct (map node_of (c # cs))"
    "\<forall>x \<in> set (c # cs). heap s (node_of x) = None \<and> node_of x \<notin> owned (heap s) ` set as"
    "\<forall>x \<in> set (c # cs). \<not> bit (ptr_of x) 0 \<and> ptr_of x \<notin> node_of ` set (c # cs) \<and> ptr_of x \<notin> set as"
    by (simp_all add: allocator_contract_def)
  have "ptr_of c \<notin> set (node_of c # as)"
    using contract(3) by auto
  from add_mem_step [OF Cons.prems(1,2) nz, of "ptr_of c" lineno] contract(2,3) this am
  have s1: "registry s1 (node_of c # as)" "separate s1 (node_of c # as)" "trace s1 = trace s"
    "owned (heap s1) (node_of c) = ptr_of c"
    "\<forall>a \<in> set as. owned (heap s1) a = owned (heap s) a"
    "(auto_allocs s1 \<noteq> 0 \<and> flagged (heap s1) (auto_allocs s1)) =
       (auto_allocs s \<noteq> 0 \<and> flagged (heap s) (auto_allocs s))"
    "\<forall>x. x \<noteq> node_of c \<longrightarrow> (heap s1 x = None) = (heap s x = None)"
    by auto
  have contract1: "allocator_contract cs s1 (node_of c # as)"
    unfolding allocator_contract_def
  proof (intro conjI ballI)
    show "distinct (map node_of cs)" using contract(1) by simp
  next
    fix x assume x: "x \<in> set cs"
    from contract(1) have "node_of c \<notin> node_of ` set cs" by simp
    with x have ne: "node_of x \<noteq> node_of c" by (metis imageI)
    with s1(7) contract(2) x show "heap s1 (node_of x) = None" by auto
    from contract(3) have "ptr_of c \<notin> node_of ` set cs" by simp
    with x have "node_of x \<noteq> ptr_of c" by (metis imageI)
    with s1(4,5) contract(2) x
    show "node_of x \<notin> owned (heap s1) ` set (node_of c # as)" by auto
  next
    fix x assume x: "x \<in> set cs"
    with contract(3) show "\<not> bit (ptr_of x) 0" by auto
    from contract(3) x show "ptr_of x \<notin> node_of ` set cs" by auto
    from contract(3) x show "ptr_of x \<notin> set (node_of c # as)" by auto
  qed
  from Cons.IH [OF s1(1,2) contract1 cs] have ih:
    "ps' = map ptr_of cs" "registry s' (rev (map node_of cs) @ node_of c # as)"
    "separate s' (rev (map node_of cs) @ node_of c # as)" "trace s' = trace s1"
    "\<forall>x \<in> set cs. owned (heap s') (node_of x) = ptr_of x"
    "\<forall>a \<in> set (node_of c # as). owned (heap s') a = owned (heap s1) a"
    "(auto_allocs s' \<noteq> 0 \<and> flagged (heap s') (auto_allocs s')) =
       (auto_allocs s1 \<noteq> 0 \<and> flagged (heap s1) (auto_allocs s1))"
    by auto
  show ?case using ih s1 ps p by simp
qed

subsection \<open>Reachable states\<close>

lemma add_mem_failed:
  "ecpg_add_mem 0 ptr lineno s = Inr (False, ecpg_raise_out_of_memory lineno s)"
  by (simp add: ecpg_add_mem_def ecpg_alloc_def)

lemma add_mem_preserves:
  assumes "registry s as" and "new = 0 \<or> heap s new = None"
    and "ecpg_add_mem new ptr lineno s = Inr (ok, s')"
  shows "\<exists>as'. registry s' as'"
proof (cases "new = 0")
  case True
  with assms(3) have "s' = ecpg_raise_out_of_memory lineno s"
    by (simp add: add_mem_failed)
  with assms(1) show ?thesis
    by (auto simp: ecpg_raise_out_of_memory_def emit_def)
next
  case False
  with assms(2) have "heap s new = None" by simp
  from add_mem_ok [OF assms(1) False this, of ptr lineno] obtain s'' where
    "ecpg_add_mem new ptr lineno s = Inr (True, s'')" "registry s'' (new # as)"
    by blast
  with assms(3) have "registry s' (new # as)" by simp
  then show ?thesis ..
qed

lemma auto_alloc_preserves:
  assumes "registry s as" and "new_ptr = 0 \<or> heap s new_ptr = None"
    and "new_am = 0 \<or> heap s new_am = None"
    and "ecpg_auto_alloc new_ptr new_am sz lineno s = Inr (p, s')"
  shows "\<exists>as'. registry s' as'"
proof (cases "new_ptr = 0")
  case True
  with assms(4) have "s' = ecpg_raise_out_of_memory lineno s"
    by (simp add: ecpg_auto_alloc_def ecpg_alloc_def)
  with assms(1) show ?thesis
    by (auto simp: ecpg_raise_out_of_memory_def emit_def)
next
  case False
  with assms(2) have fresh: "heap s new_ptr = None" by simp
  from False assms(4) obtain ok s2 where
    am: "ecpg_add_mem new_am new_ptr lineno s = Inr (ok, s2)"
    and s': "s' = (if ok then s2 else ecpg_free new_ptr s2)"
    by (simp add: ecpg_auto_alloc_def ecpg_alloc_def split: sum.splits prod.splits if_splits)
  show ?thesis
  proof (cases ok)
    case True
    with s' add_mem_preserves [OF assms(1,3) am] show ?thesis by simp
  next
    case False
    have "new_am = 0"
    proof (rule ccontr)
      assume nz: "new_am \<noteq> 0"
      with assms(3) have "heap s new_am = None" by simp
      from add_mem_ok [OF assms(1) nz this, of new_ptr lineno] obtain s'' where
        "ecpg_add_mem new_am new_ptr lineno s = Inr (True, s'')"
        by blast
      with am False show False by simp
    qed
    with am have "s2 = ecpg_raise_out_of_memory lineno s"
      by (simp add: add_mem_failed)
    with s' False fresh have "heap s' = heap s" "auto_allocs s' = auto_allocs s"
      by (simp_all add: ecpg_raise_out_of_memory_def emit_def fun_upd_idem)
    with assms(1) have "registry s' as" by (simp add: registry_def)
    then show ?thesis ..
  qed
qed

lemma free_auto_mem_empties:
  "ECPGfree_auto_mem s = Some (Inr s') \<Longrightarrow> auto_allocs s' = 0"
  by (auto simp: ECPGfree_auto_mem_def get_auto_allocs_def set_auto_allocs_def Let_def
      split: if_splits sum.splits option.splits)

lemma clear_auto_mem_preserves:
  assumes "registry s as" and "ecpg_clear_auto_mem s = Some (Inr s')"
  shows "\<exists>as'. registry s' as'"
proof -
  from assms(2) consider "s' = s"
    | msg where "s' = ecpg_log msg s"
    | "auto_allocs s' = 0"
    by (auto simp: ecpg_clear_auto_mem_def get_auto_allocs_def set_auto_allocs_def Let_def
        split: if_splits sum.splits option.splits)
  then show ?thesis
  proof cases
    case 1
    with assms(1) show ?thesis by auto
  next
    case 2
    with assms(1) show ?thesis by (auto simp: ecpg_log_def emit_def)
  next
    case 3
    then have "registry s' []" by (simp add: registry_Nil)
    then show ?thesis ..
  qed
qed

lemma disable_preserves:
  assumes "registry s as" and "ECPGdisable_auto_mem_clear_on_exec new s = Inr s'"
  shows "\<exists>as'. registry s' as'"
proof -
  have "as = [] \<longrightarrow> new \<noteq> 0"
  proof (intro impI notI)
    assume "as = []" "new = 0"
    with assms(1) have "auto_allocs s = 0" by (simp add: registry_Nil)
    with \<open>new = 0\<close> assms(2) show False
      by (simp add: ECPGdisable_auto_mem_clear_on_exec_def ecpg_alloc_def access_defs)
  qed
  from disable_ok [OF assms(1) this] obtain s'' where
    "ECPGdisable_auto_mem_clear_on_exec new s = Inr s''"
    "registry s'' (if as = [] then [new] else as)"
    by blast
  with assms(2) have "registry s' (if as = [] then [new] else as)" by simp
  then show ?thesis ..
qed

lemma reachable_registry: "reachable s \<Longrightarrow> \<exists>as. registry s as"
proof (induction rule: reachable.induct)
  case start
  have "registry init_state []" by (simp add: registry_def init_state_def)
  then show ?case ..
next
  case (add_mem s new ptr lineno ok s')
  from add_mem.IH obtain as where "registry s as" ..
  moreover note \<open>new = 0 \<or> heap s new = None\<close>
    \<open>ecpg_add_mem new ptr lineno s = Inr (ok, s')\<close>
  ultimately show ?case by (rule add_mem_preserves)
next
  case (auto_alloc s new_ptr new_am sz lineno p s')
  from auto_alloc.IH obtain as where "registry s as" ..
  moreover note \<open>new_ptr = 0 \<or> heap s new_ptr = None\<close> \<open>new_am = 0 \<or> heap s new_am = None\<close>
    \<open>ecpg_auto_alloc new_ptr new_am sz lineno s = Inr (p, s')\<close>
  ultimately show ?case by (rule auto_alloc_preserves)
next
  case (free_auto_mem s s')
  from \<open>ECPGfree_auto_mem s = Some (Inr s')\<close> have "auto_allocs s' = 0"
    by (rule free_auto_mem_empties)
  then have "registry s' []" by (simp add: registry_Nil)
  then show ?case ..
next
  case (disable s new s')
  from disable.IH obtain as where "registry s as" ..
  moreover note \<open>ECPGdisable_auto_mem_clear_on_exec new s = Inr s'\<close>
  ultimately show ?case by (rule disable_preserves)
next
  case (clear_auto_mem s s')
  from clear_auto_mem.IH obtain as where "registry s as" ..
  moreover note \<open>ecpg_clear_auto_mem s = Some (Inr s')\<close>
  ultimately show ?case by (rule clear_auto_mem_preserves)
qed

subsection \<open>Counting the calls to free in a trace\<close>

lemma count_frees:
  "count_list (concat (map (\<lambda>x. [Free (f x), Free (g x)]) xs)) (Free p) =
     count_list (map f xs) p + count_list (map g xs) p"
  by (induction xs) auto

lemma count_frees_rev:
  "count_list (concat (map (\<lambda>x. [Free (f x), Free (g x)]) (rev xs))) (Free p) =
     count_list (map f xs) p + count_list (map g xs) p"
proof -
  have "count_list (map h (rev xs)) p = count_list (map h xs) p" for h :: "'a \<Rightarrow> addr"
    by (simp flip: rev_map)
  then show ?thesis
    by (simp only: count_frees)
qed

lemma count_released:
  assumes "tr' = tr @ (if c then [Log msg] else []) @
                 concat (map (\<lambda>c. [Free (ptr_of c), Free (node_of c)]) (rev cs)) @
                 concat (map (\<lambda>a. [Free (owned h a), Free a]) as)"
    and "p \<notin> node_of ` set cs" and "p \<notin> set as"
  shows "count_list tr' (Free p) =
           count_list tr (Free p) + count_list (map ptr_of cs) p + count_list (map (owned h) as) p"
  using assms(2,3) unfolding assms(1)
  by (simp add: count_frees_rev count_frees [where g = "\<lambda>a. a", simplified])

subsection \<open>Unfolding the model on concrete states\<close>

lemmas run_defs = ecpg_auto_alloc_def ecpg_add_mem_def ecpg_alloc_def
  ECPGdisable_auto_mem_clear_on_exec_def access_defs init_state_def with_marker_def without_marker_def

lemmas loop_defs = ECPGfree_auto_mem_def ecpg_clear_auto_mem_def ecpg_free_def
  free_auto_mem_loop.simps clear_auto_mem_loop.simps flagged_def

section \<open>Claims settled on a single call\<close>

text \<open>
  Claim C5. \<^verbatim>\<open>ECPGdisable_auto_mem_clear_on_exec\<close> on a thread with no list, when the
  allocation of the placeholder node fails: the claim says the call completes without
  touching the failed node. The source stores the null pointer as the list head and then
  writes \<^verbatim>\<open>am->auto_clear_disabled = 1\<close> through it: after the out-of-memory report the
  call faults on the null pointer, in every state with no list.
\<close>

theorem disable_alloc_failure_null_deref:
  "ECPGdisable_auto_mem_clear_on_exec 0 (set_auto_allocs 0 s) =
     Inl (Null_deref,
          s\<lparr>auto_allocs := 0,
            trace := trace s @ [Log msg_disabling, Raise_out_of_memory 0]\<rparr>)"
  by (simp add: ECPGdisable_auto_mem_clear_on_exec_def ecpg_alloc_def access_defs)

text \<open>
  Claim C6. In \<^verbatim>\<open>ecpg_auto_alloc\<close>, when the payload allocation succeeds and the node
  allocation fails, the payload is passed to \<^verbatim>\<open>free\<close>, the null pointer is returned, and
  the list head and the nodes are as before: the state differs only by the two events.
\<close>

theorem auto_alloc_node_failure:
  assumes "new_ptr \<noteq> 0" and "heap s new_ptr = None"
  shows "ecpg_auto_alloc new_ptr 0 sz lineno s =
           Inr (0, s\<lparr>trace := trace s @ [Raise_out_of_memory lineno, Free new_ptr]\<rparr>)"
  using assms
  by (simp add: ecpg_auto_alloc_def ecpg_add_mem_def ecpg_alloc_def ecpg_free_def access_defs
      fun_upd_idem)

text \<open>The hypotheses of C6 hold on the empty registry with a payload at \<open>8192\<close>.\<close>

theorem auto_alloc_node_failure_witness:
  "(8192 :: addr) \<noteq> 0 \<and> heap init_state 8192 = None \<and>
   ecpg_auto_alloc 8192 0 100 7 init_state =
     Inr (0, init_state\<lparr>trace := trace init_state @ [Raise_out_of_memory 7, Free 8192]\<rparr>)"
  using auto_alloc_node_failure [of 8192 init_state 100 7]
  by (simp add: init_state_def)

text \<open>
  Claim C7. \<^verbatim>\<open>ecpg_strdup\<close> on the null string returns the null pointer and reports
  nothing. \<^verbatim>\<open>ecpg_add_mem\<close> does not look at the pointer it is handed: what it returns
  and reports for the null pointer is what it returns and reports for any other pointer,
  and when the node allocation succeeds it returns true, reports nothing and makes a node
  owning the null pointer the head of the list.
\<close>

theorem null_inputs_are_not_errors:
  "ecpg_strdup new 0 lineno s = (0, s) \<and>
   outcome (ecpg_add_mem new' 0 lineno s) = outcome (ecpg_add_mem new' ptr lineno s) \<and>
   (registry s as \<and> new' \<noteq> 0 \<and> heap s new' = None \<longrightarrow>
      (\<exists>s'. ecpg_add_mem new' 0 lineno s = Inr (True, s') \<and> trace s' = trace s \<and>
            registry s' (new' # as) \<and> owned (heap s') new' = 0))"
proof -
  have "ecpg_strdup new 0 lineno s = (0, s)"
    by (simp add: ecpg_strdup_def)
  moreover have "outcome (ecpg_add_mem new' 0 lineno s) = outcome (ecpg_add_mem new' ptr lineno s)"
    by (auto simp add: outcome_def ecpg_add_mem_def ecpg_alloc_def access_defs Let_def
        split: if_splits sum.splits option.splits prod.splits)
  moreover have "\<exists>s'. ecpg_add_mem new' 0 lineno s = Inr (True, s') \<and> trace s' = trace s \<and>
            registry s' (new' # as) \<and> owned (heap s') new' = 0"
    if "registry s as" "new' \<noteq> 0" "heap s new' = None"
    using add_mem_ok [OF that, of 0 lineno] by auto
  ultimately show ?thesis by blast
qed

text \<open>The hypotheses of C7 hold on the empty registry with a node at \<open>4096\<close>.\<close>

theorem null_inputs_are_not_errors_witness:
  "registry init_state [] \<and> (4096 :: addr) \<noteq> 0 \<and> heap init_state 4096 = None \<and>
   (\<exists>s'. ecpg_add_mem 4096 0 7 init_state = Inr (True, s') \<and> trace s' = trace init_state \<and>
         registry s' [4096] \<and> owned (heap s') 4096 = 0)"
proof -
  have h: "registry init_state [] \<and> (4096 :: addr) \<noteq> 0 \<and> heap init_state 4096 = None"
    by (simp add: registry_def init_state_def)
  with null_inputs_are_not_errors [of 0 7 init_state 4096 0 "[]"] show ?thesis by blast
qed

text \<open>
  Claim C8, as stated, fails: \<^verbatim>\<open>ecpg_alloc\<close> has no test on the size. When
  \<^verbatim>\<open>calloc(1, 0)\<close> returns a block, as the C standard allows, the call with size zero
  returns that block and reports nothing.
\<close>

theorem alloc_size_zero_counterexample:
  "fst (ecpg_alloc 4096 0 42 init_state) = 4096 \<and>
   trace (snd (ecpg_alloc 4096 0 42 init_state)) = []"
  by (simp add: ecpg_alloc_def init_state_def)

text \<open>
  Claim C8, amended. Whatever the size, \<^verbatim>\<open>ecpg_alloc\<close> returns what \<^verbatim>\<open>calloc\<close>
  returned, and it reports out-of-memory, tagged with the line number, exactly when that
  is the null pointer.
\<close>

theorem alloc_fails_iff_calloc_fails:
  "ecpg_alloc new sz lineno s =
     (new, if new = 0 then s\<lparr>trace := trace s @ [Raise_out_of_memory lineno]\<rparr> else s)"
  by (simp add: ecpg_alloc_def access_defs)

text \<open>
  Claim C9. A second \<^verbatim>\<open>ECPGdisable_auto_mem_clear_on_exec\<close> right after a first one that
  returned changes nothing but the trace: the list head, every node and every word are
  the same, the marker bit of the head is still set, and the two events are the
  announcement and the double-disable warning. It does not call the allocator.
\<close>

theorem disable_twice:
  assumes "ECPGdisable_auto_mem_clear_on_exec new s = Inr s1"
  shows "auto_allocs s1 \<noteq> 0 \<and> flagged (heap s1) (auto_allocs s1) \<and>
         ECPGdisable_auto_mem_clear_on_exec new' s1 =
           Inr (s1\<lparr>trace := trace s1 @ [Log msg_disabling, Log msg_already_disabled]\<rparr>)"
  using assms
  by (auto simp add: ECPGdisable_auto_mem_clear_on_exec_def ecpg_alloc_def access_defs Let_def
      flagged_def split: if_splits sum.splits option.splits prod.splits)

text \<open>The hypothesis of C9 holds for the first call on the empty registry, which makes
  the placeholder node at \<open>4096\<close>.\<close>

theorem disable_twice_witness:
  "ECPGdisable_auto_mem_clear_on_exec 4096 init_state =
     Inr \<lparr>heap = [4096 \<mapsto> \<lparr>slot = 1, nxt = 0\<rparr>], auto_allocs = 4096,
          trace = [Log msg_disabling]\<rparr> \<and>
   ECPGdisable_auto_mem_clear_on_exec 0
       \<lparr>heap = [4096 \<mapsto> \<lparr>slot = 1, nxt = 0\<rparr>], auto_allocs = 4096,
        trace = [Log msg_disabling]\<rparr> =
     Inr \<lparr>heap = [4096 \<mapsto> \<lparr>slot = 1, nxt = 0\<rparr>], auto_allocs = 4096,
          trace = [Log msg_disabling, Log msg_disabling,
                   Log msg_already_disabled]\<rparr>"
proof -
  have first: "ECPGdisable_auto_mem_clear_on_exec 4096 init_state =
     Inr \<lparr>heap = [4096 \<mapsto> \<lparr>slot = 1, nxt = 0\<rparr>], auto_allocs = 4096,
          trace = [Log msg_disabling]\<rparr>"
    by (simp add: ECPGdisable_auto_mem_clear_on_exec_def ecpg_alloc_def access_defs
        init_state_def with_marker_def)
  from disable_twice [OF first, of 0] first show ?thesis by simp
qed

section \<open>Claims about sequences of operations\<close>

text \<open>
  Claim C1, as stated, fails: the registry keeps no pointer apart from the others. When
  the same pointer \<open>8192\<close> is handed to \<^verbatim>\<open>ecpg_add_mem\<close> twice, both calls succeed on
  blocks that satisfy the allocator's contract, two nodes own it, and
  \<^verbatim>\<open>ECPGfree_auto_mem\<close> passes it to \<^verbatim>\<open>free\<close> twice, not exactly once.
\<close>

theorem release_twice_counterexample:
  "registry init_state [] \<and> separate init_state [] \<and>
   allocator_contract [Register_existing 4096 8192 1, Register_existing 4112 8192 2] init_state [] \<and>
   register_all [Register_existing 4096 8192 1, Register_existing 4112 8192 2] init_state =
     Some ([8192, 8192],
           \<lparr>heap = [4112 \<mapsto> \<lparr>slot = 8192, nxt = 4096\<rparr>, 4096 \<mapsto> \<lparr>slot = 8192, nxt = 0\<rparr>],
            auto_allocs = 4112, trace = []\<rparr>) \<and>
   ECPGfree_auto_mem
       \<lparr>heap = [4112 \<mapsto> \<lparr>slot = 8192, nxt = 4096\<rparr>, 4096 \<mapsto> \<lparr>slot = 8192, nxt = 0\<rparr>],
        auto_allocs = 4112, trace = []\<rparr> =
     Some (Inr \<lparr>heap = Map.empty, auto_allocs = 0,
                trace = [Free 8192, Free 4112, Free 8192, Free 4096]\<rparr>) \<and>
   count_list [Free 8192, Free 4112, Free 8192, Free 4096] (Free 8192) = 2"
proof -
  have h1: "registry init_state []" by (simp add: registry_def init_state_def)
  have h2: "separate init_state []" by (simp add: separate_def)
  have h3: "allocator_contract [Register_existing 4096 8192 1, Register_existing 4112 8192 2]
              init_state []"
    by (simp add: allocator_contract_def init_state_def)
  have h4: "register_all [Register_existing 4096 8192 1, Register_existing 4112 8192 2] init_state =
     Some ([8192, 8192],
           \<lparr>heap = [4112 \<mapsto> \<lparr>slot = 8192, nxt = 4096\<rparr>, 4096 \<mapsto> \<lparr>slot = 8192, nxt = 0\<rparr>],
            auto_allocs = 4112, trace = []\<rparr>)"
    by (simp add: run_defs)
  have h5: "ECPGfree_auto_mem
       \<lparr>heap = [4112 \<mapsto> \<lparr>slot = 8192, nxt = 4096\<rparr>, 4096 \<mapsto> \<lparr>slot = 8192, nxt = 0\<rparr>],
        auto_allocs = 4112, trace = []\<rparr> =
     Some (Inr \<lparr>heap = Map.empty, auto_allocs = 0,
                trace = [Free 8192, Free 4112, Free 8192, Free 4096]\<rparr>)"
    by (simp add: loop_defs access_defs fun_eq_iff)
  show ?thesis using h1 h2 h3 h4 h5 by simp
qed

text \<open>
  Claim C1, amended. Take a registry with list \<open>as0\<close> (the empty registry, for one) and a
  sequence \<open>cs\<close> of registering calls that all succeed, on blocks that satisfy the
  allocator's contract. Then the pointers tracked are the ones the calls returned or were
  handed, \<^verbatim>\<open>ECPGfree_auto_mem\<close> returns, the list head is null afterwards, and the calls
  to \<^verbatim>\<open>free\<close> it makes are, for each registering call from the last to the first, one
  with the call's pointer and one with the call's node, followed by the same for the nodes
  that were there before. Every node of the sequence is deallocated, and a pointer of
  the sequence is passed to \<^verbatim>\<open>free\<close> once per registration: as many times as it was
  registered, so exactly once when it was registered once and was not owned before.
\<close>

theorem release_after_registering:
  assumes "registry s0 as0" and "separate s0 as0" and "allocator_contract cs s0 as0"
    and "register_all cs s0 = Some (ps, s)"
  shows "ps = map ptr_of cs \<and>
         (\<exists>s'. ECPGfree_auto_mem s = Some (Inr s') \<and> auto_allocs s' = 0 \<and>
               trace s' = trace s0 @
                 (if auto_allocs s0 \<noteq> 0 \<and> flagged (heap s0) (auto_allocs s0)
                  then [Log msg_reenabled] else []) @
                 concat (map (\<lambda>c. [Free (ptr_of c), Free (node_of c)]) (rev cs)) @
                 concat (map (\<lambda>a. [Free (owned (heap s0) a), Free a]) as0) \<and>
               (\<forall>c \<in> set cs. heap s' (node_of c) = None) \<and>
               (\<forall>p \<in> set ps. count_list (trace s') (Free p) =
                  count_list (trace s0) (Free p) + count_list ps p +
                  count_list (map (owned (heap s0)) as0) p))"
proof -
  from register_all_ok [OF assms] have r:
    "ps = map ptr_of cs" "registry s (rev (map node_of cs) @ as0)"
    "separate s (rev (map node_of cs) @ as0)" "trace s = trace s0"
    "\<forall>c \<in> set cs. owned (heap s) (node_of c) = ptr_of c"
    "\<forall>a \<in> set as0. owned (heap s) a = owned (heap s0) a"
    "(auto_allocs s \<noteq> 0 \<and> flagged (heap s) (auto_allocs s)) =
       (auto_allocs s0 \<noteq> 0 \<and> flagged (heap s0) (auto_allocs s0))"
    by auto
  from free_auto_mem_ok [OF r(2,3)] obtain s' where s':
    "ECPGfree_auto_mem s = Some (Inr s')" "auto_allocs s' = 0"
    "trace s' = trace s @
       (if auto_allocs s \<noteq> 0 \<and> flagged (heap s) (auto_allocs s)
        then [Log msg_reenabled] else []) @
       concat (map (\<lambda>a. [Free (owned (heap s) a), Free a]) (rev (map node_of cs) @ as0))"
    "heap s' = heap s |` (- (set (rev (map node_of cs) @ as0) \<union>
        (owned (heap s) ` set (rev (map node_of cs) @ as0) - {0})))"
    by blast
  have new: "map (\<lambda>a. [Free (owned (heap s) a), Free a]) (rev (map node_of cs)) =
             map (\<lambda>c. [Free (ptr_of c), Free (node_of c)]) (rev cs)"
    using r(5) by (simp add: rev_map)
  have old: "map (\<lambda>a. [Free (owned (heap s) a), Free a]) as0 =
             map (\<lambda>a. [Free (owned (heap s0) a), Free a]) as0"
    using r(6) by simp
  have gone: "\<forall>c \<in> set cs. heap s' (node_of c) = None"
    unfolding s'(4) by (simp add: restrict_map_def)
  have "trace s' = trace s0 @
          (if auto_allocs s0 \<noteq> 0 \<and> flagged (heap s0) (auto_allocs s0)
           then [Log msg_reenabled] else []) @
          concat (map (\<lambda>c. [Free (ptr_of c), Free (node_of c)]) (rev cs)) @
          concat (map (\<lambda>a. [Free (owned (heap s0) a), Free a]) as0)"
    unfolding s'(3) by (simp only: r(7) r(4) map_append concat_append new old)
  note tr = this
  have "\<forall>p \<in> set ps. count_list (trace s') (Free p) =
          count_list (trace s0) (Free p) + count_list ps p +
          count_list (map (owned (heap s0)) as0) p"
  proof
    fix p assume "p \<in> set ps"
    with r(1) obtain c where "c \<in> set cs" "p = ptr_of c" by auto
    with assms(3) have "p \<notin> node_of ` set cs" "p \<notin> set as0"
      by (simp_all add: allocator_contract_def)
    with tr show "count_list (trace s') (Free p) =
          count_list (trace s0) (Free p) + count_list ps p +
          count_list (map (owned (heap s0)) as0) p"
      unfolding r(1) by (rule count_released)
  qed
  with s'(1,2) r(1) gone tr show ?thesis by blast
qed

text \<open>The hypotheses of C1 hold on the empty registry for one \<^verbatim>\<open>ecpg_auto_alloc\<close> (payload
  at \<open>8192\<close>, node at \<open>4096\<close>) followed by one \<^verbatim>\<open>ecpg_add_mem\<close> (pointer \<open>8208\<close>, node
  at \<open>4112\<close>).\<close>

theorem release_after_registering_witness:
  "registry init_state [] \<and> separate init_state [] \<and>
   allocator_contract [Register_new 8192 4096 100 1, Register_existing 4112 8208 2] init_state [] \<and>
   (\<exists>s. register_all [Register_new 8192 4096 100 1, Register_existing 4112 8208 2] init_state =
           Some ([8192, 8208], s) \<and>
        (\<exists>s'. ECPGfree_auto_mem s = Some (Inr s') \<and> auto_allocs s' = 0 \<and>
              trace s' = [Free 8208, Free 4112, Free 8192, Free 4096] \<and>
              count_list (trace s') (Free 8192) = 1 \<and> count_list (trace s') (Free 8208) = 1))"
proof -
  let ?cs = "[Register_new 8192 4096 100 1, Register_existing 4112 8208 2]"
  have h1: "registry init_state []" by (simp add: registry_def init_state_def)
  have h2: "separate init_state []" by (simp add: separate_def)
  have h3: "allocator_contract ?cs init_state []"
    by (simp add: allocator_contract_def init_state_def)
  have "\<exists>s. register_all ?cs init_state = Some ([8192, 8208], s)"
    by (simp add: run_defs)
  then obtain s where h4: "register_all ?cs init_state = Some ([8192, 8208], s)" ..
  from release_after_registering [OF h1 h2 h3 h4] h1 h2 h3 h4 show ?thesis
    by (auto simp: init_state_def)
qed

text \<open>
  Claim C3, as stated, fails for the same reason: on the list that two successful
  \<^verbatim>\<open>ecpg_add_mem\<close> calls with the pointer \<open>8192\<close> build, the sequence
  \<^verbatim>\<open>ECPGdisable_auto_mem_clear_on_exec\<close>, \<^verbatim>\<open>ecpg_clear_auto_mem\<close>,
  \<^verbatim>\<open>ECPGfree_auto_mem\<close> passes \<open>8192\<close> to \<^verbatim>\<open>free\<close> twice in total, not exactly once.
\<close>

theorem suppress_twice_counterexample:
  "register_all [Register_existing 4096 8192 1, Register_existing 4112 8192 2] init_state =
     Some ([8192, 8192],
           \<lparr>heap = [4112 \<mapsto> \<lparr>slot = 8192, nxt = 4096\<rparr>, 4096 \<mapsto> \<lparr>slot = 8192, nxt = 0\<rparr>],
            auto_allocs = 4112, trace = []\<rparr>) \<and>
   registry \<lparr>heap = [4112 \<mapsto> \<lparr>slot = 8192, nxt = 4096\<rparr>, 4096 \<mapsto> \<lparr>slot = 8192, nxt = 0\<rparr>],
             auto_allocs = 4112, trace = []\<rparr> [4112, 4096] \<and>
   separate \<lparr>heap = [4112 \<mapsto> \<lparr>slot = 8192, nxt = 4096\<rparr>, 4096 \<mapsto> \<lparr>slot = 8192, nxt = 0\<rparr>],
             auto_allocs = 4112, trace = []\<rparr> [4112, 4096] \<and>
   ECPGdisable_auto_mem_clear_on_exec 0
       \<lparr>heap = [4112 \<mapsto> \<lparr>slot = 8192, nxt = 4096\<rparr>, 4096 \<mapsto> \<lparr>slot = 8192, nxt = 0\<rparr>],
        auto_allocs = 4112, trace = []\<rparr> =
     Inr \<lparr>heap = [4112 \<mapsto> \<lparr>slot = 8193, nxt = 4096\<rparr>, 4096 \<mapsto> \<lparr>slot = 8192, nxt = 0\<rparr>],
          auto_allocs = 4112, trace = [Log msg_disabling]\<rparr> \<and>
   ecpg_clear_auto_mem
       \<lparr>heap = [4112 \<mapsto> \<lparr>slot = 8193, nxt = 4096\<rparr>, 4096 \<mapsto> \<lparr>slot = 8192, nxt = 0\<rparr>],
        auto_allocs = 4112, trace = [Log msg_disabling]\<rparr> =
     Some (Inr \<lparr>heap = [4112 \<mapsto> \<lparr>slot = 8193, nxt = 4096\<rparr>, 4096 \<mapsto> \<lparr>slot = 8192, nxt = 0\<rparr>],
                auto_allocs = 4112, trace = [Log msg_disabling, Log msg_not_freeing]\<rparr>) \<and>
   ECPGfree_auto_mem
       \<lparr>heap = [4112 \<mapsto> \<lparr>slot = 8193, nxt = 4096\<rparr>, 4096 \<mapsto> \<lparr>slot = 8192, nxt = 0\<rparr>],
        auto_allocs = 4112, trace = [Log msg_disabling, Log msg_not_freeing]\<rparr> =
     Some (Inr \<lparr>heap = Map.empty, auto_allocs = 0,
                trace = [Log msg_disabling, Log msg_not_freeing, Log msg_reenabled,
                         Free 8192, Free 4112, Free 8192, Free 4096]\<rparr>) \<and>
   count_list [Log msg_disabling, Log msg_not_freeing, Log msg_reenabled,
               Free 8192, Free 4112, Free 8192, Free 4096] (Free 8192) = 2"
proof -
  let ?s = "\<lparr>heap = [4112 \<mapsto> \<lparr>slot = 8192, nxt = 4096\<rparr>, 4096 \<mapsto> \<lparr>slot = 8192, nxt = 0\<rparr>],
             auto_allocs = 4112, trace = []\<rparr>"
  let ?s1 = "\<lparr>heap = [4112 \<mapsto> \<lparr>slot = 8193, nxt = 4096\<rparr>, 4096 \<mapsto> \<lparr>slot = 8192, nxt = 0\<rparr>],
          auto_allocs = 4112, trace = [Log msg_disabling]\<rparr>"
  let ?s2 = "\<lparr>heap = [4112 \<mapsto> \<lparr>slot = 8193, nxt = 4096\<rparr>, 4096 \<mapsto> \<lparr>slot = 8192, nxt = 0\<rparr>],
                auto_allocs = 4112, trace = [Log msg_disabling, Log msg_not_freeing]\<rparr>"
  have h0: "register_all [Register_existing 4096 8192 1, Register_existing 4112 8192 2]
              init_state = Some ([8192, 8192], ?s)"
    by (simp add: run_defs)
  have h1: "registry ?s [4112, 4096]"
    by (simp add: registry_def flagged_def auto_clear_disabled_def)
  have h2: "separate ?s [4112, 4096]"
    by (simp add: separate_def owned_def without_marker_def)
  have h3: "ECPGdisable_auto_mem_clear_on_exec 0 ?s = Inr ?s1"
    by (simp add: run_defs fun_upd_twist)
  have h4: "ecpg_clear_auto_mem ?s1 = Some (Inr ?s2)"
    by (simp add: loop_defs access_defs)
  have h5: "ECPGfree_auto_mem ?s2 =
     Some (Inr \<lparr>heap = Map.empty, auto_allocs = 0,
                trace = [Log msg_disabling, Log msg_not_freeing, Log msg_reenabled,
                         Free 8192, Free 4112, Free 8192, Free 4096]\<rparr>)"
    by (simp add: loop_defs access_defs with_marker_def without_marker_def fun_eq_iff)
  show ?thesis using h0 h1 h2 h3 h4 h5 by simp
qed

text \<open>
  Claim C3, amended. On a registry with list \<open>as\<close>, \<^verbatim>\<open>ECPGdisable_auto_mem_clear_on_exec\<close>
  returns (it needs the placeholder allocation to succeed when the list is empty) and
  only logs; then \<^verbatim>\<open>ecpg_clear_auto_mem\<close> returns without calling \<^verbatim>\<open>free\<close>: it leaves
  the nodes, the list and the owned pointers as they are and only logs; then
  \<^verbatim>\<open>ECPGfree_auto_mem\<close> returns, empties the list and calls \<^verbatim>\<open>free\<close> once with the
  owned pointer and once with the address of each node (the placeholder owns the null
  pointer). Over the whole sequence a pointer is passed to \<^verbatim>\<open>free\<close> once per node that
  owns it (and once if it is a node's address): exactly once when one node owns it.
\<close>

theorem suppress_soft_hard:
  assumes "registry s as" and "separate s as" and "as = [] \<longrightarrow> new \<noteq> 0"
  shows "\<exists>s1 s2 s3.
           ECPGdisable_auto_mem_clear_on_exec new s = Inr s1 \<and>
           trace s1 = trace s @ Log msg_disabling #
             (if as \<noteq> [] \<and> flagged (heap s) (auto_allocs s)
              then [Log msg_already_disabled] else []) \<and>
           ecpg_clear_auto_mem s1 = Some (Inr s2) \<and>
           heap s2 = heap s1 \<and> auto_allocs s2 = auto_allocs s1 \<and>
           trace s2 = trace s1 @ [Log msg_not_freeing] \<and>
           registry s2 (if as = [] then [new] else as) \<and>
           map (owned (heap s2)) as = map (owned (heap s)) as \<and>
           ECPGfree_auto_mem s2 = Some (Inr s3) \<and> auto_allocs s3 = 0 \<and>
           trace s3 = trace s2 @ [Log msg_reenabled] @
             (if as = [] then [Free 0, Free new]
              else concat (map (\<lambda>a. [Free (owned (heap s) a), Free a]) as)) \<and>
           (\<forall>p. count_list (trace s3) (Free p) =
              count_list (trace s) (Free p) +
              count_list (if as = [] then [0, new] else map (owned (heap s)) as @ as) p)"
proof -
  let ?as' = "if as = [] then [new] else as"
  from disable_ok [OF assms(1,3)] obtain s1 where s1:
    "ECPGdisable_auto_mem_clear_on_exec new s = Inr s1" "registry s1 ?as'"
    "auto_allocs s1 \<noteq> 0" "flagged (heap s1) (auto_allocs s1)"
    "trace s1 = trace s @ Log msg_disabling #
       (if as \<noteq> [] \<and> flagged (heap s) (auto_allocs s)
        then [Log msg_already_disabled] else [])"
    "\<forall>a. owned (heap s1) a = (if as = [] \<and> a = new then 0 else owned (heap s) a)"
    by blast
  define s2 where "s2 = s1\<lparr>trace := trace s1 @ [Log msg_not_freeing]\<rparr>"
  have c: "ecpg_clear_auto_mem s1 = Some (Inr s2)"
    unfolding s2_def using s1(3,4) by (rule clear_auto_mem_suppressed)
  have reg2: "registry s2 ?as'" using s1(2) by (simp add: s2_def)
  have own2: "owned (heap s2) a = (if as = [] \<and> a = new then 0 else owned (heap s) a)" for a
    using s1(6) by (simp add: s2_def)
  have sep2: "separate s2 ?as'"
    using assms(2,3) own2 by (auto simp: separate_def)
  from free_auto_mem_ok [OF reg2 sep2] obtain s3 where s3:
    "ECPGfree_auto_mem s2 = Some (Inr s3)" "auto_allocs s3 = 0"
    "trace s3 = trace s2 @
       (if auto_allocs s2 \<noteq> 0 \<and> flagged (heap s2) (auto_allocs s2)
        then [Log msg_reenabled] else []) @
       concat (map (\<lambda>a. [Free (owned (heap s2) a), Free a]) ?as')"
    by blast
  have fl2: "auto_allocs s2 \<noteq> 0 \<and> flagged (heap s2) (auto_allocs s2)"
    using s1(3,4) by (simp add: s2_def)
  have tr3: "trace s3 = trace s2 @ [Log msg_reenabled] @
             (if as = [] then [Free 0, Free new]
              else concat (map (\<lambda>a. [Free (owned (heap s) a), Free a]) as))"
  proof (cases "as = []")
    case True
    with s3(3) fl2 own2 [of new] show ?thesis by simp
  next
    case False
    then have "map (\<lambda>a. [Free (owned (heap s2) a), Free a]) as =
               map (\<lambda>a. [Free (owned (heap s) a), Free a]) as"
      using own2 by simp
    with s3(3) fl2 False show ?thesis by simp
  qed
  have tr2: "trace s2 = trace s1 @ [Log msg_not_freeing]"
    by (simp add: s2_def)
  have cnt: "\<forall>p. count_list (trace s3) (Free p) =
              count_list (trace s) (Free p) +
              count_list (if as = [] then [0, new] else map (owned (heap s)) as @ as) p"
    unfolding tr3 tr2 s1(5)
    by (simp add: count_frees [where g = "\<lambda>a. a", simplified])
  have own: "map (owned (heap s2)) as = map (owned (heap s)) as"
    using own2 by (cases "as = []") simp_all
  have "heap s2 = heap s1" "auto_allocs s2 = auto_allocs s1"
    by (simp_all add: s2_def)
  with s1(1,5) c tr2 reg2 own s3(1,2) tr3 cnt show ?thesis by blast
qed

text \<open>The hypotheses of C3 hold on a registry of one node at \<open>4096\<close> owning \<open>8192\<close>,
  which the sequence passes to \<^verbatim>\<open>free\<close> once.\<close>

theorem suppress_soft_hard_witness:
  "registry \<lparr>heap = [4096 \<mapsto> \<lparr>slot = 8192, nxt = 0\<rparr>], auto_allocs = 4096, trace = []\<rparr> [4096] \<and>
   separate \<lparr>heap = [4096 \<mapsto> \<lparr>slot = 8192, nxt = 0\<rparr>], auto_allocs = 4096, trace = []\<rparr> [4096] \<and>
   (\<exists>s1 s2 s3.
      ECPGdisable_auto_mem_clear_on_exec 0
        \<lparr>heap = [4096 \<mapsto> \<lparr>slot = 8192, nxt = 0\<rparr>], auto_allocs = 4096, trace = []\<rparr> = Inr s1 \<and>
      trace s1 = [Log msg_disabling] \<and>
      ecpg_clear_auto_mem s1 = Some (Inr s2) \<and> heap s2 = heap s1 \<and> registry s2 [4096] \<and>
      trace s2 = [Log msg_disabling, Log msg_not_freeing] \<and>
      ECPGfree_auto_mem s2 = Some (Inr s3) \<and> auto_allocs s3 = 0 \<and>
      trace s3 = [Log msg_disabling, Log msg_not_freeing, Log msg_reenabled,
                  Free 8192, Free 4096] \<and>
      count_list (trace s3) (Free 8192) = 1)"
proof -
  let ?s = "\<lparr>heap = [4096 \<mapsto> \<lparr>slot = 8192, nxt = 0\<rparr>], auto_allocs = 4096, trace = []\<rparr>"
  have h1: "registry ?s [4096]" by (simp add: registry_def)
  have h2: "separate ?s [4096]" by code_simp
  have h3: "[4096 :: addr] = [] \<longrightarrow> (0 :: addr) \<noteq> 0" by simp
  have own: "owned (heap ?s) 4096 = 8192" by code_simp
  have nf: "\<not> flagged (heap ?s) (auto_allocs ?s)"
    by (simp add: flagged_def auto_clear_disabled_def)
  from suppress_soft_hard [OF h1 h2 h3] obtain s1 s2 s3 where r:
    "ECPGdisable_auto_mem_clear_on_exec 0 ?s = Inr s1"
    "trace s1 = trace ?s @ Log msg_disabling #
       (if [4096 :: addr] \<noteq> [] \<and> flagged (heap ?s) (auto_allocs ?s)
        then [Log msg_already_disabled] else [])"
    "ecpg_clear_auto_mem s1 = Some (Inr s2)" "heap s2 = heap s1"
    "trace s2 = trace s1 @ [Log msg_not_freeing]"
    "registry s2 [4096]"
    "ECPGfree_auto_mem s2 = Some (Inr s3)" "auto_allocs s3 = 0"
    "trace s3 = trace s2 @ [Log msg_reenabled] @
       [Free (owned (heap ?s) 4096), Free 4096]"
    by auto
  from r(2) nf have t1: "trace s1 = [Log msg_disabling]" by simp
  with r(5) have t2: "trace s2 = [Log msg_disabling, Log msg_not_freeing]" by simp
  with r(9) own have t3: "trace s3 = [Log msg_disabling, Log msg_not_freeing, Log msg_reenabled,
                  Free 8192, Free 4096]" by simp
  then have "count_list (trace s3) (Free 8192) = 1" by simp
  with r(1,3,4,6,7,8) t1 t2 t3 h1 h2 show ?thesis by blast
qed

text \<open>
  Claim C4. When the list is empty or its head does not carry the marker bit,
  \<^verbatim>\<open>ecpg_clear_auto_mem\<close> returns, the list head is null afterwards, the calls to
  \<^verbatim>\<open>free\<close> are exactly one per node, with the node's address, in list order, no owned
  pointer is among them, and the memory outside the nodes is untouched.
\<close>

theorem soft_clear_unsuppressed:
  assumes "registry s as" and "separate s as"
    and "auto_allocs s = 0 \<or> \<not> flagged (heap s) (auto_allocs s)"
  shows "\<exists>s'. ecpg_clear_auto_mem s = Some (Inr s') \<and> auto_allocs s' = 0 \<and>
              trace s' = trace s @ map Free as \<and>
              (\<forall>a \<in> set as. Free (owned (heap s) a) \<notin> set (map Free as)) \<and>
              heap s' = heap s |` (- set as)"
proof -
  from clear_auto_mem_ok [OF assms(1,3)] obtain s' where
    "ecpg_clear_auto_mem s = Some (Inr s')" "auto_allocs s' = 0"
    "trace s' = trace s @ map Free as" "heap s' = heap s |` (- set as)"
    by blast
  moreover have "\<forall>a \<in> set as. Free (owned (heap s) a) \<notin> set (map Free as)"
    using assms(2) by (auto simp: separate_def)
  ultimately show ?thesis by blast
qed

text \<open>The hypotheses of C4 hold on a registry of one node at \<open>4096\<close> owning \<open>8192\<close>.\<close>

theorem soft_clear_unsuppressed_witness:
  "registry \<lparr>heap = [4096 \<mapsto> \<lparr>slot = 8192, nxt = 0\<rparr>], auto_allocs = 4096, trace = []\<rparr> [4096] \<and>
   separate \<lparr>heap = [4096 \<mapsto> \<lparr>slot = 8192, nxt = 0\<rparr>], auto_allocs = 4096, trace = []\<rparr> [4096] \<and>
   \<not> flagged [4096 \<mapsto> \<lparr>slot = 8192, nxt = 0\<rparr>] 4096 \<and>
   (\<exists>s'. ecpg_clear_auto_mem
            \<lparr>heap = [4096 \<mapsto> \<lparr>slot = 8192, nxt = 0\<rparr>], auto_allocs = 4096, trace = []\<rparr> =
          Some (Inr s') \<and>
        auto_allocs s' = 0 \<and> trace s' = [Free 4096] \<and> Free 8192 \<notin> set (trace s') \<and>
        heap s' 4096 = None)"
proof -
  let ?s = "\<lparr>heap = [4096 \<mapsto> \<lparr>slot = 8192, nxt = 0\<rparr>], auto_allocs = 4096, trace = []\<rparr>"
  have h1: "registry ?s [4096]" by (simp add: registry_def)
  have h2: "separate ?s [4096]" by code_simp
  have h3: "\<not> flagged [4096 \<mapsto> \<lparr>slot = 8192, nxt = 0\<rparr>] 4096"
    by (simp add: flagged_def auto_clear_disabled_def)
  then have "auto_allocs ?s = 0 \<or> \<not> flagged (heap ?s) (auto_allocs ?s)" by simp
  from soft_clear_unsuppressed [OF h1 h2 this] h1 h2 h3 show ?thesis
    by (auto simp: restrict_map_def)
qed

text \<open>
  Claim C10. Two successful \<^verbatim>\<open>ecpg_add_mem\<close> calls with the same pointer \<open>p\<close> put two
  nodes owning \<open>p\<close> at the front of the list, and \<^verbatim>\<open>ECPGfree_auto_mem\<close> then calls
  \<^verbatim>\<open>free\<close> with \<open>p\<close> twice, once for each node.
\<close>

theorem no_deduplication:
  assumes "registry s as" and "separate s as"
    and "allocator_contract [Register_existing new1 p l1, Register_existing new2 p l2] s as"
    and "ecpg_add_mem new1 p l1 s = Inr (True, s1)"
    and "ecpg_add_mem new2 p l2 s1 = Inr (True, s2)"
  shows "registry s2 (new2 # new1 # as) \<and> owned (heap s2) new2 = p \<and> owned (heap s2) new1 = p \<and>
         (\<exists>s3. ECPGfree_auto_mem s2 = Some (Inr s3) \<and> auto_allocs s3 = 0 \<and>
               trace s3 = trace s @
                 (if auto_allocs s \<noteq> 0 \<and> flagged (heap s) (auto_allocs s)
                  then [Log msg_reenabled] else []) @
                 [Free p, Free new2, Free p, Free new1] @
                 concat (map (\<lambda>a. [Free (owned (heap s) a), Free a]) as))"
proof -
  let ?cs = "[Register_existing new1 p l1, Register_existing new2 p l2]"
  have run: "register_all ?cs s = Some ([p, p], s2)"
    using assms(4,5) by simp
  from register_all_ok [OF assms(1,2,3) run] have r:
    "registry s2 (new2 # new1 # as)" "separate s2 (new2 # new1 # as)" "trace s2 = trace s"
    "owned (heap s2) new2 = p" "owned (heap s2) new1 = p"
    "\<forall>a \<in> set as. owned (heap s2) a = owned (heap s) a"
    "(auto_allocs s2 \<noteq> 0 \<and> flagged (heap s2) (auto_allocs s2)) =
       (auto_allocs s \<noteq> 0 \<and> flagged (heap s) (auto_allocs s))"
    by auto
  from free_auto_mem_ok [OF r(1,2)] obtain s3 where s3:
    "ECPGfree_auto_mem s2 = Some (Inr s3)" "auto_allocs s3 = 0"
    "trace s3 = trace s2 @
       (if auto_allocs s2 \<noteq> 0 \<and> flagged (heap s2) (auto_allocs s2)
        then [Log msg_reenabled] else []) @
       concat (map (\<lambda>a. [Free (owned (heap s2) a), Free a]) (new2 # new1 # as))"
    by blast
  have old: "map (\<lambda>a. [Free (owned (heap s2) a), Free a]) as =
             map (\<lambda>a. [Free (owned (heap s) a), Free a]) as"
    using r(6) by simp
  have "trace s3 = trace s @
          (if auto_allocs s \<noteq> 0 \<and> flagged (heap s) (auto_allocs s)
           then [Log msg_reenabled] else []) @
          [Free p, Free new2, Free p, Free new1] @
          concat (map (\<lambda>a. [Free (owned (heap s) a), Free a]) as)"
    unfolding s3(3) by (simp only: r(7) r(3) r(4) r(5) list.map concat.simps old append.simps)
  with s3(1,2) r(1,4,5) show ?thesis by blast
qed

text \<open>The hypotheses of C10 hold on the empty registry for the pointer \<open>8192\<close> and nodes
  at \<open>4096\<close> and \<open>4112\<close>.\<close>

theorem no_deduplication_witness:
  "registry init_state [] \<and> separate init_state [] \<and>
   allocator_contract [Register_existing 4096 8192 1, Register_existing 4112 8192 2] init_state [] \<and>
   (\<exists>s1 s2. ecpg_add_mem 4096 8192 1 init_state = Inr (True, s1) \<and>
            ecpg_add_mem 4112 8192 2 s1 = Inr (True, s2) \<and>
            registry s2 [4112, 4096] \<and> owned (heap s2) 4112 = 8192 \<and> owned (heap s2) 4096 = 8192 \<and>
            (\<exists>s3. ECPGfree_auto_mem s2 = Some (Inr s3) \<and> auto_allocs s3 = 0 \<and>
                  trace s3 = [Free 8192, Free 4112, Free 8192, Free 4096]))"
proof -
  have h1: "registry init_state []" by (simp add: registry_def init_state_def)
  have h2: "separate init_state []" by (simp add: separate_def)
  have h3: "allocator_contract [Register_existing 4096 8192 1, Register_existing 4112 8192 2]
              init_state []"
    by (simp add: allocator_contract_def init_state_def)
  have "\<exists>s1. ecpg_add_mem 4096 8192 1 init_state = Inr (True, s1) \<and>
          (\<exists>s2. ecpg_add_mem 4112 8192 2 s1 = Inr (True, s2))"
    by (simp add: run_defs)
  then obtain s1 s2 where h4: "ecpg_add_mem 4096 8192 1 init_state = Inr (True, s1)"
    and h5: "ecpg_add_mem 4112 8192 2 s1 = Inr (True, s2)"
    by blast
  from no_deduplication [OF h1 h2 h3 h4 h5] h1 h2 h3 h4 h5 show ?thesis
    by (auto simp: init_state_def)
qed

text \<open>
  Claim C2. In every state reachable from the empty registry the thread's list is a
  well-formed list and no node after its head carries the marker bit. A successful
  \<^verbatim>\<open>ecpg_add_mem\<close> or \<^verbatim>\<open>ecpg_auto_alloc\<close> from such a state, on a node block that was
  not allocated, keeps this, makes the new node the head, leaves the old head without
  the marker bit, and gives the new head the marker bit when the old head carried it.
\<close>

theorem flag_only_on_head:
  assumes "reachable s"
  shows "at_most_head_flagged s \<and>
         (\<forall>new ptr lineno s'.
            heap s new = None \<and> ecpg_add_mem new ptr lineno s = Inr (True, s') \<longrightarrow>
            at_most_head_flagged s' \<and> auto_allocs s' = new \<and>
            (auto_allocs s \<noteq> 0 \<longrightarrow> \<not> flagged (heap s') (auto_allocs s)) \<and>
            (auto_allocs s \<noteq> 0 \<and> flagged (heap s) (auto_allocs s) \<longrightarrow> flagged (heap s') new)) \<and>
         (\<forall>new_ptr new_am sz lineno p s'.
            heap s new_am = None \<and> p \<noteq> 0 \<and>
            ecpg_auto_alloc new_ptr new_am sz lineno s = Inr (p, s') \<longrightarrow>
            at_most_head_flagged s' \<and> auto_allocs s' = new_am \<and>
            (auto_allocs s \<noteq> 0 \<longrightarrow> \<not> flagged (heap s') (auto_allocs s)) \<and>
            (auto_allocs s \<noteq> 0 \<and> flagged (heap s) (auto_allocs s) \<longrightarrow> flagged (heap s') new_am))"
proof -
  from assms obtain as where reg: "registry s as"
    using reachable_registry by blast
  have prepend: "at_most_head_flagged s' \<and> auto_allocs s' = new \<and>
      (auto_allocs s \<noteq> 0 \<longrightarrow> \<not> flagged (heap s') (auto_allocs s)) \<and>
      (auto_allocs s \<noteq> 0 \<and> flagged (heap s) (auto_allocs s) \<longrightarrow> flagged (heap s') new)"
    if fresh: "heap s new = None" and am: "ecpg_add_mem new ptr lineno s = Inr (True, s')"
    for new ptr lineno s'
  proof -
    from am have nz: "new \<noteq> 0" by (rule add_mem_True_nonnull)
    from add_mem_ok [OF reg nz fresh, of ptr lineno] am have s':
      "registry s' (new # as)" "auto_allocs s' = new"
      "\<forall>a \<in> set as. \<not> flagged (heap s') a"
      "flagged (heap s') new = (bit ptr 0 \<or> auto_allocs s \<noteq> 0 \<and> flagged (heap s) (auto_allocs s))"
      by auto
    have "auto_allocs s \<in> set as" if "auto_allocs s \<noteq> 0"
      using that reg by (cases as) (auto simp: registry_def)
    with s' show ?thesis by (auto simp: at_most_head_flagged_def)
  qed
  have "at_most_head_flagged s"
    using reg by (auto simp: at_most_head_flagged_def)
  moreover have "\<forall>new ptr lineno s'.
            heap s new = None \<and> ecpg_add_mem new ptr lineno s = Inr (True, s') \<longrightarrow>
            at_most_head_flagged s' \<and> auto_allocs s' = new \<and>
            (auto_allocs s \<noteq> 0 \<longrightarrow> \<not> flagged (heap s') (auto_allocs s)) \<and>
            (auto_allocs s \<noteq> 0 \<and> flagged (heap s) (auto_allocs s) \<longrightarrow> flagged (heap s') new)"
  proof (intro allI impI, elim conjE)
    fix new ptr lineno s'
    assume "heap s new = None" "ecpg_add_mem new ptr lineno s = Inr (True, s')"
    then show "at_most_head_flagged s' \<and> auto_allocs s' = new \<and>
            (auto_allocs s \<noteq> 0 \<longrightarrow> \<not> flagged (heap s') (auto_allocs s)) \<and>
            (auto_allocs s \<noteq> 0 \<and> flagged (heap s) (auto_allocs s) \<longrightarrow> flagged (heap s') new)"
      by (rule prepend)
  qed
  moreover have "\<forall>new_ptr new_am sz lineno p s'.
            heap s new_am = None \<and> p \<noteq> 0 \<and>
            ecpg_auto_alloc new_ptr new_am sz lineno s = Inr (p, s') \<longrightarrow>
            at_most_head_flagged s' \<and> auto_allocs s' = new_am \<and>
            (auto_allocs s \<noteq> 0 \<longrightarrow> \<not> flagged (heap s') (auto_allocs s)) \<and>
            (auto_allocs s \<noteq> 0 \<and> flagged (heap s) (auto_allocs s) \<longrightarrow> flagged (heap s') new_am)"
  proof (intro allI impI, elim conjE)
    fix new_ptr new_am sz lineno p s'
    assume fresh: "heap s new_am = None" and "p \<noteq> 0"
      and "ecpg_auto_alloc new_ptr new_am sz lineno s = Inr (p, s')"
    then have "ecpg_add_mem new_am new_ptr lineno s = Inr (True, s')"
      using auto_alloc_success by blast
    with fresh show "at_most_head_flagged s' \<and> auto_allocs s' = new_am \<and>
            (auto_allocs s \<noteq> 0 \<longrightarrow> \<not> flagged (heap s') (auto_allocs s)) \<and>
            (auto_allocs s \<noteq> 0 \<and> flagged (heap s) (auto_allocs s) \<longrightarrow> flagged (heap s') new_am)"
      by (rule prepend)
  qed
  ultimately show ?thesis by (intro conjI)
qed

text \<open>The hypothesis of C2 holds for the state after \<^verbatim>\<open>ECPGdisable_auto_mem_clear_on_exec\<close>
  on the empty registry (placeholder at \<open>4096\<close>, marker bit set); a node at \<open>4112\<close> is
  then prepended.\<close>

theorem flag_only_on_head_witness:
  "reachable \<lparr>heap = [4096 \<mapsto> \<lparr>slot = 1, nxt = 0\<rparr>], auto_allocs = 4096,
              trace = [Log msg_disabling]\<rparr> \<and>
   at_most_head_flagged \<lparr>heap = [4096 \<mapsto> \<lparr>slot = 1, nxt = 0\<rparr>], auto_allocs = 4096,
              trace = [Log msg_disabling]\<rparr> \<and>
   (\<exists>s'. ecpg_add_mem 4112 8192 7
            \<lparr>heap = [4096 \<mapsto> \<lparr>slot = 1, nxt = 0\<rparr>], auto_allocs = 4096,
             trace = [Log msg_disabling]\<rparr> = Inr (True, s') \<and>
         at_most_head_flagged s' \<and> auto_allocs s' = 4112 \<and>
         \<not> flagged (heap s') 4096 \<and> flagged (heap s') 4112)"
proof -
  let ?s = "\<lparr>heap = [4096 \<mapsto> \<lparr>slot = 1, nxt = 0\<rparr>], auto_allocs = 4096,
             trace = [Log msg_disabling]\<rparr>"
  have d: "ECPGdisable_auto_mem_clear_on_exec 4096 init_state = Inr ?s"
    by (simp add: ECPGdisable_auto_mem_clear_on_exec_def ecpg_alloc_def access_defs
        init_state_def with_marker_def)
  have "(4096 :: addr) = 0 \<or> heap init_state 4096 = None"
    by (simp add: init_state_def)
  from reachable.start this d have reach: "reachable ?s"
    by (rule reachable.disable)
  have "\<exists>s'. ecpg_add_mem 4112 8192 7 ?s = Inr (True, s')"
    by (simp add: ecpg_add_mem_def ecpg_alloc_def access_defs)
  then obtain s' where am: "ecpg_add_mem 4112 8192 7 ?s = Inr (True, s')" ..
  have fresh: "heap ?s 4112 = None" by simp
  have fl: "auto_allocs ?s \<noteq> 0 \<and> flagged (heap ?s) (auto_allocs ?s)"
    by (simp add: flagged_def auto_clear_disabled_def)
  from flag_only_on_head [OF reach] have inv: "at_most_head_flagged ?s"
    and step: "heap ?s 4112 = None \<and> ecpg_add_mem 4112 8192 7 ?s = Inr (True, s') \<longrightarrow>
            at_most_head_flagged s' \<and> auto_allocs s' = 4112 \<and>
            (auto_allocs ?s \<noteq> 0 \<longrightarrow> \<not> flagged (heap s') (auto_allocs ?s)) \<and>
            (auto_allocs ?s \<noteq> 0 \<and> flagged (heap ?s) (auto_allocs ?s) \<longrightarrow> flagged (heap s') 4112)"
    by blast+
  from step fresh am fl have "at_most_head_flagged s' \<and> auto_allocs s' = 4112 \<and>
      \<not> flagged (heap s') 4096 \<and> flagged (heap s') 4112"
    by simp
  with reach inv am show ?thesis by blast
qed

end
